theory Spec2Isabelle
  imports Complex_Main "HOL-Library.Multiset"
begin

section \<open>GameService: the cascading-match engine of the slot game\<close>

text \<open>
  The engine is the class \<open>GameService\<close>. JavaScript numbers that hold bids, balances,
  counters, symbol kinds and cell indices are modelled as mathematical integers (they are
  exact below \<open>2^53\<close>). A double that is not an integer is the rational number it stands
  for: such are the draws of \<open>Math.random\<close> and the cumulative thresholds, each threshold
  being the double that its decimal literal denotes. The two products in the showcase branch
  of \<open>fillItems\<close> are taken exactly, where the host rounds them to a double.
\<close>

subsection \<open>Objects with numeric keys\<close>

text \<open>
  \<open>GroupedItems\<close> is an object \<open>{ [index: number]: number }\<close>. It is an association
  list kept in ascending key order, the order in which \<open>for ... in\<close> enumerates integer
  keys. \<open>obj_set\<close> is the assignment \<open>obj[k] = v\<close>, \<open>map_of\<close> the read \<open>obj[k]\<close>
  (\<open>None\<close> for \<open>undefined\<close>).
\<close>

type_synonym GroupedItems = "(int \<times> int) list"

fun obj_set :: "int \<Rightarrow> int \<Rightarrow> GroupedItems \<Rightarrow> GroupedItems" where
  "obj_set k v [] = [(k, v)]"
| "obj_set k v ((k', v') # m) =
     (if k = k' then (k, v) # m
      else if k < k' then (k, v) # (k', v') # m
      else (k', v') # obj_set k v m)"

text \<open>
  The name under which \<open>for ... in\<close> hands out a key is its decimal string; a string is
  truthy unless it is empty.
\<close>

fun digits :: "nat \<Rightarrow> string" where
  "digits n =
     (if n < 10 then [char_of (48 + n)]
      else digits (n div 10) @ [char_of (48 + n mod 10)])"

definition property_name :: "int \<Rightarrow> string" where
  "property_name k = (if k < 0 then CHR ''-'' # digits (nat (- k)) else digits (nat k))"

definition truthy_string :: "string \<Rightarrow> bool" where
  "truthy_string s = (s \<noteq> [])"

subsection \<open>Configuration tables\<close>

text \<open>
  \<open>itemsRanges = [ .01, .03, .07, .16, .28, .40, .52, .68, .84, 1 ]\<close>. A decimal literal
  denotes the double nearest to it; \<open>binary64 m e\<close> is the double with the 53-bit
  significand \<open>m\<close> and the value \<open>m / 2^e\<close>. (That these are the nearest doubles is lemma
  \<open>itemsRanges_nearest\<close>.) A draw is compared with them as written in the source, and the
  comparison of two doubles is exact.
\<close>

definition binary64 :: "int \<Rightarrow> nat \<Rightarrow> rat" where
  "binary64 m e = of_int m / 2 ^ e"

definition itemsRanges :: "rat list" where
  "itemsRanges =
     [binary64 5764607523034235 59, binary64 8646911284551352 58, binary64 5044031582654956 56,
      binary64 5764607523034235 55, binary64 5044031582654956 54, binary64 7205759403792794 54,
      binary64 4683743612465316 53, binary64 6124895493223875 53, binary64 7566047373982433 53,
      1]"

definition itemsRewards :: "GroupedItems list" where
  "itemsRewards =
     [ [(4, 6), (5, 10), (6, 200)],
       [(8, 20), (9, 20), (10, 50), (11, 50), (12, 100)],
       [(8, 6), (9, 6), (10, 20), (11, 20), (12, 60)],
       [(8, 4), (9, 4), (10, 10), (11, 10), (12, 30)],
       [(8, 2), (9, 2), (10, 4), (11, 4), (12, 20)],
       [(8, 2), (9, 2), (10, 4), (11, 4), (12, 20)],
       [(8, 2), (9, 2), (10, 4), (11, 4), (12, 20)],
       [(8, 1), (9, 1), (10, 2), (11, 2), (12, 10)],
       [(8, 1), (9, 1), (10, 2), (11, 2), (12, 10)],
       [(8, 1), (9, 1), (10, 2), (11, 2), (12, 10)] ]"

definition showcaseCombinations :: "(int \<times> nat) list" where
  "showcaseCombinations = [(0, 4), (1, 8), (2, 8), (3, 8)]"

datatype error = TypeError

subsection \<open>Combination Matcher\<close>

text \<open>
  \<open>groupItems\<close>: \<open>items.forEach(item => groups[item] = groups[item] + 1 || 1)\<close>.
  \<open>undefined + 1\<close> is \<open>NaN\<close> and \<open>0\<close> is falsy, both replaced by 1.
\<close>

definition group_step :: "int \<Rightarrow> GroupedItems \<Rightarrow> GroupedItems" where
  "group_step item groups =
     obj_set item
       (case map_of groups item of
          None \<Rightarrow> 1
        | Some n \<Rightarrow> (if n + 1 = 0 then 1 else n + 1))
       groups"

definition groupItems :: "int list \<Rightarrow> GroupedItems" where
  "groupItems items = fold group_step items []"

text \<open>
  \<open>findCombinations\<close>: the loop \<open>for (let item in groups)\<close> over the entries of
  \<open>groups\<close>, \<open>math\<close> being the object built so far. \<open>item\<close> is the property name, so
  the test \<open>item ? 12 : 6\<close> is a test of a string. \<open>itemsRewards[item]\<close> is
  \<open>undefined\<close> for a key outside 0..9 and reading \<open>add[key]\<close> from it throws.
  \<open>if (add[key])\<close> holds for a defined, non-zero entry.
\<close>

fun findCombinations_loop :: "(int \<times> int) list \<Rightarrow> GroupedItems \<Rightarrow> error + GroupedItems" where
  "findCombinations_loop [] math = Inr math"
| "findCombinations_loop ((item, amount) # rest) math =
     (let key = min amount (if truthy_string (property_name item) then 12 else 6) in
      if 0 \<le> item \<and> item < int (length itemsRewards) then
        (let add = itemsRewards ! nat item in
         case map_of add key of
           Some r \<Rightarrow>
             if r \<noteq> 0 then findCombinations_loop rest (obj_set item r math)
             else findCombinations_loop rest math
         | None \<Rightarrow> findCombinations_loop rest math)
      else Inl TypeError)"

definition findCombinations :: "GroupedItems \<Rightarrow> error + GroupedItems" where
  "findCombinations groups = findCombinations_loop groups []"

text \<open>
  \<open>calculateReward\<close>: \<open>for (let i in math) reward += math[i]; return reward * bid\<close>.
\<close>

fun calculateReward_loop :: "(int \<times> int) list \<Rightarrow> int \<Rightarrow> int" where
  "calculateReward_loop [] reward = reward"
| "calculateReward_loop ((i, m) # rest) reward = calculateReward_loop rest (reward + m)"

definition calculateReward :: "int \<Rightarrow> GroupedItems \<Rightarrow> int" where
  "calculateReward bid math = calculateReward_loop math 0 * bid"

text \<open>
  What the matcher credits to a kind that occurs \<open>amount\<close> times: the entry of the
  payout table at \<open>min amount 12\<close>, if there is one and it is not zero.
\<close>

definition credit :: "int \<Rightarrow> int \<Rightarrow> int option" where
  "credit item amount =
     (case map_of (itemsRewards ! nat item) (min amount 12) of
        Some r \<Rightarrow> if r \<noteq> 0 then Some r else None
      | None \<Rightarrow> None)"

subsection \<open>Board Generator\<close>

text \<open>
  The random source is the sequence of results of \<open>Math.random\<close>: \<open>rnd n\<close> is the
  result of call number \<open>n\<close>, and every function that draws takes the number of calls
  made so far and returns the new number. \<open>Math.random\<close> promises \<open>0 \<le> r < 1\<close>.
\<close>

definition draws_ok :: "(nat \<Rightarrow> rat) \<Rightarrow> bool" where
  "draws_ok rnd = (\<forall>n. 0 \<le> rnd n \<and> rnd n < 1)"

definition Math_round :: "rat \<Rightarrow> int" where
  "Math_round x = \<lfloor>x + 1 / 2\<rfloor>"

fun findIndex_from :: "('a \<Rightarrow> bool) \<Rightarrow> 'a list \<Rightarrow> int \<Rightarrow> int" where
  "findIndex_from P [] k = - 1"
| "findIndex_from P (v # vs) k = (if P v then k else findIndex_from P vs (k + 1))"

definition findIndex :: "('a \<Rightarrow> bool) \<Rightarrow> 'a list \<Rightarrow> int" where
  "findIndex P vs = findIndex_from P vs 0"

text \<open>
  A board in the making is an array of \<open>number | null\<close>; \<open>None\<close> is \<open>null\<close>. Reading
  past the end gives \<open>undefined\<close>, which \<open>== null\<close> does not tell from \<open>null\<close>;
  writing past the end extends the array, the cells in between reading as \<open>undefined\<close>
  (they are holes, which \<open>map\<close> and \<open>forEach\<close> would pass over). The engine only ever
  builds arrays of 30 cells and writes to cells 0..29, so no hole arises.
\<close>

definition cell :: "'a option list \<Rightarrow> nat \<Rightarrow> 'a option" where
  "cell xs i = (if i < length xs then xs ! i else None)"

definition js_set :: "'a option list \<Rightarrow> nat \<Rightarrow> 'a option \<Rightarrow> 'a option list" where
  "js_set xs i v =
     (if i < length xs then xs[i := v]
      else xs @ replicate (i - length xs) None @ [v])"

text \<open>
  \<open>fakeItems\<close>: 30 pairs \<open>[k % 10, Math.random()]\<close>, sorted with the comparator
  \<open>(a, b) => a[1] > b[1] ? 1 : 0\<close>, then projected to the kinds. The comparator is not a
  consistent one, so the order \<open>Array.prototype.sort\<close> arrives at is up to the host; it
  is the parameter \<open>srt\<close>, of which only \<open>sort_ok\<close> is known: it permutes.
\<close>

definition sort_ok :: "((int \<times> rat) list \<Rightarrow> (int \<times> rat) list) \<Rightarrow> bool" where
  "sort_ok srt = (\<forall>xs. mset (srt xs) = mset xs)"

definition fakeItems ::
  "(nat \<Rightarrow> rat) \<Rightarrow> ((int \<times> rat) list \<Rightarrow> (int \<times> rat) list) \<Rightarrow> nat \<Rightarrow> int list \<times> nat" where
  "fakeItems rnd srt c =
     (map fst (srt (map (\<lambda>k. (int (k mod 10), rnd (c + k))) [0..<30])), c + 30)"

record GameService =
  balance :: int
  index :: int
  fails :: int

text \<open>
  The showcase branch of \<open>fillItems\<close>: one draw picks the pair, then \<open>amount\<close> draws
  pick the cells written. An index outside \<open>showcaseCombinations\<close> would make the
  destructuring throw; a negative cell index would set a property, not a cell. The
  products \<open>Math.random() * 3\<close> and \<open>Math.random() * 29\<close> are exact here; the host rounds
  them to the nearest double before \<open>Math.round\<close>, which for a product within \<open>2^-48\<close> of
  a half can give the neighbouring pair or cell. What is proved below about the showcase
  holds whichever pair and cells are picked.
\<close>

definition showcase :: "(nat \<Rightarrow> rat) \<Rightarrow> nat \<Rightarrow> int option list \<Rightarrow> error + (int option list \<times> nat)" where
  "showcase rnd c its =
     (let random = Math_round (rnd c * of_int (int (length showcaseCombinations) - 1)) in
      if 0 \<le> random \<and> random < int (length showcaseCombinations) then
        (let (type, amount) = showcaseCombinations ! nat random in
         Inr (fold (\<lambda>n a.
                 let i = Math_round (rnd (c + 1 + n) * 29) in
                 if 0 \<le> i then js_set a (nat i) (Some type) else a)
               [0..<amount] its,
              c + 1 + amount))
      else Inl TypeError)"

text \<open>
  \<open>fillItems\<close> returns the new array \<open>show\<close>, the argument array as the showcase
  writes left it, \<open>this\<close> and the number of calls of \<open>Math.random\<close>. The \<open>map\<close>
  draws once for every cell, empty or not.
\<close>

definition fillItems ::
  "(nat \<Rightarrow> rat) \<Rightarrow> nat \<Rightarrow> GameService \<Rightarrow> int option list \<Rightarrow>
     error + (int list \<times> int option list \<times> GameService \<times> nat)" where
  "fillItems rnd c this its =
     (case (if fails this > 3
            then (case showcase rnd c its of
                    Inl e \<Rightarrow> Inl e
                  | Inr (its', c') \<Rightarrow> Inr (its', this\<lparr>fails := 0\<rparr>, c'))
            else Inr (its, this, c)) of
        Inl e \<Rightarrow> Inl e
      | Inr (its', this', c') \<Rightarrow>
          Inr (map (\<lambda>(n, item).
                      let random = rnd (c' + n) in
                      case item of
                        None \<Rightarrow> findIndex (\<lambda>v. random \<le> v) itemsRanges
                      | Some v \<Rightarrow> v)
                 (enumerate 0 its'),
               its', this', c' + length its'))"

text \<open>
  The \<open>map\<close> of \<open>fillItems\<close> by itself: the array \<open>its\<close> with every empty cell \<open>n\<close>
  given the kind that draw number \<open>c + n\<close> selects.
\<close>

definition weighted_fill :: "(nat \<Rightarrow> rat) \<Rightarrow> nat \<Rightarrow> int option list \<Rightarrow> int list" where
  "weighted_fill rnd c its =
     map (\<lambda>(n, item).
            let random = rnd (c + n) in
            case item of
              None \<Rightarrow> findIndex (\<lambda>v. random \<le> v) itemsRanges
            | Some v \<Rightarrow> v)
       (enumerate 0 its)"

text \<open>A board in the making of 30 cells whose symbols are kinds 0..9.\<close>

definition cells_ok :: "int option list \<Rightarrow> bool" where
  "cells_ok b = (length b = 30 \<and> (\<forall>c\<in>set b. \<forall>v. c = Some v \<longrightarrow> 0 \<le> v \<and> v \<le> 9))"

subsection \<open>Cascade Resolver\<close>

text \<open>\<open>blowItems\<close>: \<open>show.forEach((item, i) => math[item] && blow.push(i))\<close>.\<close>

definition blowItems :: "int list \<Rightarrow> GroupedItems \<Rightarrow> nat list" where
  "blowItems shown math =
     map fst (filter (\<lambda>(i, item). case map_of math item of Some m \<Rightarrow> m \<noteq> 0 | None \<Rightarrow> False)
                (enumerate 0 shown))"

text \<open>
  \<open>moveItems\<close>: \<open>move_cell x y\<close> is the body of the two outer loops at column \<open>x\<close> and
  step \<open>y\<close>; the inner loop \<open>for (j = i - 1; j >= x * 5; j--)\<close> with its \<open>break\<close> is
  the search for the first \<open>j\<close> of \<open>i - 1, ..., x * 5\<close> whose cell is not empty. The
  destructuring assignment reads \<open>last[j]\<close> first and then writes \<open>move[j]\<close>,
  \<open>last[i]\<close> and \<open>last[j]\<close>.
\<close>

definition move_cell ::
  "nat \<Rightarrow> nat \<Rightarrow> GroupedItems \<times> int option list \<Rightarrow> GroupedItems \<times> int option list" where
  "move_cell x y = (\<lambda>(move, last).
     let i = x * 5 + (4 - y) in
     if cell last i = None then
       (case find (\<lambda>j. cell last j \<noteq> None) (rev [x * 5..<i]) of
          Some j \<Rightarrow> (obj_set (int j) (int i) move, js_set (js_set last i (cell last j)) j None)
        | None \<Rightarrow> (move, last))
     else (move, last))"

definition moveItems :: "int list \<Rightarrow> nat list \<Rightarrow> GroupedItems \<times> int option list" where
  "moveItems shown blow =
     fold (\<lambda>x. fold (move_cell x) [0..<4]) [0..<6]
       ([], map (\<lambda>(i, v). if i \<in> set blow then None else Some v) (enumerate 0 shown))"

text \<open>Column \<open>x\<close> of a board, top cell first, and the symbols of a list of cells.\<close>

definition column :: "nat \<Rightarrow> 'a list \<Rightarrow> 'a list" where
  "column x b = take 5 (drop (5 * x) b)"

definition symbols :: "'a option list \<Rightarrow> 'a list" where
  "symbols cs = concat (map (\<lambda>c. case c of None \<Rightarrow> [] | Some v \<Rightarrow> [v]) cs)"

text \<open>
  A column compacted downward: its symbols in their order, below as many empty cells as
  it takes to keep its length.
\<close>

definition settle :: "'a option list \<Rightarrow> 'a option list" where
  "settle col = replicate (length col - length (symbols col)) None @ map Some (symbols col)"

text \<open>
  What \<open>move_cell\<close> does to the board alone, at the cell \<open>k\<close> places below cell \<open>n\<close>.
\<close>

definition step_at :: "nat \<Rightarrow> nat \<Rightarrow> int option list \<Rightarrow> int option list" where
  "step_at n k l =
     (if cell l (n + k) = None then
       (case find (\<lambda>j. cell l j \<noteq> None) (rev [n..<n + k]) of
          Some j \<Rightarrow> js_set (js_set l (n + k) (cell l j)) j None
        | None \<Rightarrow> l)
     else l)"

subsection \<open>Round Orchestrator\<close>

record RoundInfo =
  r_id :: int
  r_bid :: int
  r_reward :: int
  r_profit :: int
  r_balance :: int
  r_show :: "int list"
  r_blow :: "nat list"
  r_last :: "int option list"
  r_math :: GroupedItems
  r_move :: GroupedItems

text \<open>
  The variables of \<open>spin\<close> that live across iterations of its loop, with \<open>this\<close> and
  the number of calls of \<open>Math.random\<close>.
\<close>

record frame =
  this :: GameService
  calls :: nat
  profit :: int
  reward :: int
  balance_now :: int
  items :: "int option list"
  rounds :: "RoundInfo list"

text \<open>
  From the second iteration on, \<open>items\<close> is the very array stored as \<open>last\<close> in the
  round pushed before, so what \<open>fillItems\<close> writes into its argument shows there too
  (\<open>written\<close> is that array after the call; an idle round leaves it as it was).
\<close>

definition alias_write :: "RoundInfo list \<Rightarrow> int option list \<Rightarrow> RoundInfo list" where
  "alias_write rs written =
     (case rev rs of [] \<Rightarrow> [] | r # earlier \<Rightarrow> rev earlier @ [r\<lparr>r_last := written\<rparr>])"

text \<open>The body of the \<open>do ... while\<close> loop of \<open>spin\<close>.\<close>

definition round_body ::
  "(nat \<Rightarrow> rat) \<Rightarrow> ((int \<times> rat) list \<Rightarrow> (int \<times> rat) list) \<Rightarrow> int \<Rightarrow> bool \<Rightarrow> frame \<Rightarrow> error + frame" where
  "round_body rnd srt bid idle s =
     (let this1 = (this s)\<lparr>index := index (this s) + 1\<rparr>;
          id' = index this1 in
      case (if idle
            then (let (shown, c) = fakeItems rnd srt (calls s) in Inr (shown, items s, this1, c))
            else fillItems rnd (calls s) this1 (items s)) of
        Inl e \<Rightarrow> Inl e
      | Inr (shown, written, this2, c) \<Rightarrow>
          (case findCombinations (groupItems shown) of
             Inl e \<Rightarrow> Inl e
           | Inr math \<Rightarrow>
               (let blow = blowItems shown math;
                    (move, last) = moveItems shown blow;
                    reward' = calculateReward bid math;
                    profit' = profit s + reward';
                    balance' = balance_now s + reward';
                    round = \<lparr>r_id = id', r_bid = bid, r_reward = reward', r_profit = profit',
                             r_balance = balance', r_show = shown, r_blow = blow, r_last = last,
                             r_math = math, r_move = move\<rparr>
                in Inr \<lparr>this = this2, calls = c, profit = profit', reward = reward',
                        balance_now = balance', items = last,
                        rounds = alias_write (rounds s) written @ [round]\<rparr>)))"

text \<open>
  The loop \<open>do { ... } while (reward > 0)\<close>. Nothing in the source bounds the number of
  iterations, so the loop is a partial function: \<open>None\<close> is a loop that never ends,
  \<open>Some (Inl e)\<close> an exception, \<open>Some (Inr s)\<close> the variables after the last iteration.
\<close>

partial_function (option) spin_loop ::
  "(nat \<Rightarrow> rat) \<Rightarrow> ((int \<times> rat) list \<Rightarrow> (int \<times> rat) list) \<Rightarrow> int \<Rightarrow> bool \<Rightarrow> frame \<Rightarrow>
     (error + frame) option" where
  "spin_loop rnd srt bid idle s =
     (case round_body rnd srt bid idle s of
        Inl e \<Rightarrow> Some (Inl e)
      | Inr s' \<Rightarrow> if reward s' > 0 then spin_loop rnd srt bid idle s' else Some (Inr s'))"

text \<open>The same loop cut off after \<open>n\<close> iterations (\<open>None\<close> when it wants more).\<close>

fun spin_loop_upto ::
  "nat \<Rightarrow> (nat \<Rightarrow> rat) \<Rightarrow> ((int \<times> rat) list \<Rightarrow> (int \<times> rat) list) \<Rightarrow> int \<Rightarrow> bool \<Rightarrow> frame \<Rightarrow>
     (error + frame) option" where
  "spin_loop_upto 0 rnd srt bid idle s = None"
| "spin_loop_upto (Suc n) rnd srt bid idle s =
     (case round_body rnd srt bid idle s of
        Inl e \<Rightarrow> Some (Inl e)
      | Inr s' \<Rightarrow> if reward s' > 0 then spin_loop_upto n rnd srt bid idle s' else Some (Inr s'))"

text \<open>
  \<open>spin\<close> returns the rounds, the engine after the call and the number of calls of
  \<open>Math.random\<close>.
\<close>

definition spin_start :: "int \<Rightarrow> GameService \<Rightarrow> nat \<Rightarrow> frame" where
  "spin_start bid gs c =
     \<lparr>this = gs, calls = c, profit = 0, reward = 0, balance_now = balance gs - bid,
      items = replicate 30 None, rounds = []\<rparr>"

definition spin_finish :: "bool \<Rightarrow> frame \<Rightarrow> RoundInfo list \<times> GameService \<times> nat" where
  "spin_finish idle s =
     (let this1 = (if \<not> idle then (this s)\<lparr>balance := balance_now s\<rparr> else this s);
          this2 = (if length (rounds s) = 1 then this1\<lparr>fails := fails this1 + 1\<rparr>
                   else this1\<lparr>fails := 0\<rparr>)
      in (rounds s, this2, calls s))"

definition spin ::
  "(nat \<Rightarrow> rat) \<Rightarrow> ((int \<times> rat) list \<Rightarrow> (int \<times> rat) list) \<Rightarrow> int \<Rightarrow> GameService \<Rightarrow> nat \<Rightarrow>
     (error + RoundInfo list \<times> GameService \<times> nat) option" where
  "spin rnd srt bid gs c =
     (let idle = (bid \<le> 0 \<or> bid > balance gs) in
      case spin_loop rnd srt bid idle (spin_start bid gs c) of
        None \<Rightarrow> None
      | Some (Inl e) \<Rightarrow> Some (Inl e)
      | Some (Inr s) \<Rightarrow> Some (Inr (spin_finish idle s)))"

definition spin_upto ::
  "nat \<Rightarrow> (nat \<Rightarrow> rat) \<Rightarrow> ((int \<times> rat) list \<Rightarrow> (int \<times> rat) list) \<Rightarrow> int \<Rightarrow> GameService \<Rightarrow> nat \<Rightarrow>
     (error + RoundInfo list \<times> GameService \<times> nat) option" where
  "spin_upto n rnd srt bid gs c =
     (let idle = (bid \<le> 0 \<or> bid > balance gs) in
      case spin_loop_upto n rnd srt bid idle (spin_start bid gs c) of
        None \<Rightarrow> None
      | Some (Inl e) \<Rightarrow> Some (Inl e)
      | Some (Inr s) \<Rightarrow> Some (Inr (spin_finish idle s)))"

text \<open>
  The part of the loop body that produces the board: the demo fill or the weighted fill,
  after \<open>++this.index\<close>.
\<close>

definition fill_step ::
  "(nat \<Rightarrow> rat) \<Rightarrow> ((int \<times> rat) list \<Rightarrow> (int \<times> rat) list) \<Rightarrow> bool \<Rightarrow> frame \<Rightarrow>
     error + (int list \<times> int option list \<times> GameService \<times> nat)" where
  "fill_step rnd srt idle s =
     (if idle
      then Inr (fst (fakeItems rnd srt (calls s)), items s,
                (this s)\<lparr>index := index (this s) + 1\<rparr>, snd (fakeItems rnd srt (calls s)))
      else fillItems rnd (calls s) ((this s)\<lparr>index := index (this s) + 1\<rparr>) (items s))"

text \<open>
  Successive calls of \<open>spin\<close> on one engine, with the bids of the list: the results in
  order, the engine and the number of draws at the end. \<open>None\<close> when a call does not
  return or throws. \<open>session_upto n\<close> is the same with every loop cut off after \<open>n\<close>
  rounds.
\<close>

fun session ::
  "(nat \<Rightarrow> rat) \<Rightarrow> ((int \<times> rat) list \<Rightarrow> (int \<times> rat) list) \<Rightarrow> int list \<Rightarrow> GameService \<Rightarrow> nat \<Rightarrow>
     (RoundInfo list list \<times> GameService \<times> nat) option" where
  "session rnd srt [] gs c = Some ([], gs, c)"
| "session rnd srt (bid # bids) gs c =
     (case spin rnd srt bid gs c of
        Some (Inr (rs, gs', c')) \<Rightarrow>
          (case session rnd srt bids gs' c' of
             Some (results, gs'', c'') \<Rightarrow> Some (rs # results, gs'', c'')
           | None \<Rightarrow> None)
      | _ \<Rightarrow> None)"

fun session_upto ::
  "nat \<Rightarrow> (nat \<Rightarrow> rat) \<Rightarrow> ((int \<times> rat) list \<Rightarrow> (int \<times> rat) list) \<Rightarrow> int list \<Rightarrow> GameService \<Rightarrow> nat \<Rightarrow>
     (RoundInfo list list \<times> GameService \<times> nat) option" where
  "session_upto n rnd srt [] gs c = Some ([], gs, c)"
| "session_upto n rnd srt (bid # bids) gs c =
     (case spin_upto n rnd srt bid gs c of
        Some (Inr (rs, gs', c')) \<Rightarrow>
          (case session_upto n rnd srt bids gs' c' of
             Some (results, gs'', c'') \<Rightarrow> Some (rs # results, gs'', c'')
           | None \<Rightarrow> None)
      | _ \<Rightarrow> None)"

text \<open>
  Two random sources: one that always draws \<open>r\<close>, and one whose draws run through all ten
  kinds in turn, so that a weighted fill of an empty board holds every kind three times.
\<close>

definition steady_source :: "rat \<Rightarrow> nat \<Rightarrow> rat" where
  "steady_source r n = r"

definition spread_source :: "nat \<Rightarrow> rat" where
  "spread_source n =
     [1 / 200, 2 / 100, 5 / 100, 1 / 10, 2 / 10, 3 / 10, 5 / 10, 6 / 10, 8 / 10, 9 / 10] ! (n mod 10)"

text \<open>The ids of the rounds pushed so far count up from \<open>base + 1\<close>.\<close>

definition ids_from :: "int \<Rightarrow> frame \<Rightarrow> bool" where
  "ids_from base s =
     (map r_id (rounds s) = map (\<lambda>k. base + 1 + int k) [0..<length (rounds s)] \<and>
      index (this s) = base + int (length (rounds s)))"

text \<open>The value of \<open>this.fails\<close> after a fill step that found it at \<open>f\<close>.\<close>

definition after_fill :: "bool \<Rightarrow> int \<Rightarrow> int" where
  "after_fill idle f = (if \<not> idle \<and> 3 < f then 0 else f)"

text \<open>
  What is looked at in the result of one call (number of rounds, engine, draws, first
  board) and of a session (numbers of rounds, \<open>fails\<close>, first board of the last call,
  draws).
\<close>

definition spin_report ::
  "error + RoundInfo list \<times> GameService \<times> nat \<Rightarrow> (nat \<times> GameService \<times> nat \<times> int list) option" where
  "spin_report out =
     (case out of Inl e \<Rightarrow> None | Inr (rs, gs, c) \<Rightarrow> Some (length rs, gs, c, r_show (hd rs)))"

definition pity_report ::
  "RoundInfo list list \<times> GameService \<times> nat \<Rightarrow> nat list \<times> int \<times> int list \<times> nat" where
  "pity_report x = (map length (fst x), fails (fst (snd x)), r_show (hd (last (fst x))), snd (snd x))"

section \<open>Properties\<close>

subsection \<open>Objects and the tally\<close>


lemma map_of_obj_set: "map_of (obj_set k v m) = (map_of m)(k \<mapsto> v)"
  by (induction m) (auto simp: fun_eq_iff)

lemma keys_obj_set: "set (map fst (obj_set k v m)) = insert k (set (map fst m))"
proof (induction m)
  case Nil
  then show ?case by simp
next
  case (Cons e m)
  obtain k' v' where e: "e = (k', v')" by (cases e)
  show ?case using Cons.IH unfolding e by (cases "k = k'"; cases "k < k'") auto
qed

lemma sorted_obj_set:
  "sorted_wrt (<) (map fst m) \<Longrightarrow> sorted_wrt (<) (map fst (obj_set k v m))"
proof (induction m)
  case Nil
  then show ?case by simp
next
  case (Cons e m)
  obtain k' v' where e: "e = (k', v')" by (cases e)
  have tail: "sorted_wrt (<) (map fst m)" and hd: "\<forall>x\<in>set m. k' < fst x"
    using Cons.prems e by auto
  show ?case
  proof (cases "k = k'")
    case True
    then show ?thesis using Cons.prems e by simp
  next
    case ne: False
    show ?thesis
    proof (cases "k < k'")
      case True
      then show ?thesis using Cons.prems e ne by auto
    next
      case False
      then have "k' < k" using ne by simp
      moreover have "\<forall>x\<in>set (obj_set k v m). k' < fst x"
      proof
        fix x assume "x \<in> set (obj_set k v m)"
        then have "fst x \<in> insert k (fst ` set m)" using keys_obj_set[of k v m] by force
        then show "k' < fst x" using \<open>k' < k\<close> hd by auto
      qed
      ultimately show ?thesis using Cons.IH[OF tail] e ne False by simp
    qed
  qed
qed

lemma group_step_tally:
  assumes "\<And>k. map_of g k = (if k \<in> set xs then Some (int (count_list xs k)) else None)"
  shows "map_of (group_step x g) k =
           (if k \<in> set (xs @ [x]) then Some (int (count_list (xs @ [x]) k)) else None)"
  using assms by (auto simp: group_step_def map_of_obj_set split: option.splits)

lemma groupItems_snoc: "groupItems (xs @ [x]) = group_step x (groupItems xs)"
  by (simp add: groupItems_def)

lemma map_of_groupItems:
  "map_of (groupItems xs) k = (if k \<in> set xs then Some (int (count_list xs k)) else None)"
proof (induction xs arbitrary: k rule: rev_induct)
  case Nil
  then show ?case by (simp add: groupItems_def)
next
  case (snoc x xs)
  show ?case unfolding groupItems_snoc by (rule group_step_tally) (rule snoc.IH)
qed

lemma sorted_groupItems: "sorted_wrt (<) (map fst (groupItems xs))"
proof (induction xs rule: rev_induct)
  case Nil
  then show ?case by (simp add: groupItems_def)
next
  case (snoc x xs)
  then show ?case unfolding groupItems_snoc group_step_def by (rule sorted_obj_set)
qed

lemma digits_nonempty: "digits n \<noteq> []"
  by (subst digits.simps) simp

lemma truthy_property_name: "truthy_string (property_name k)"
  by (simp add: truthy_string_def property_name_def digits_nonempty)

lemma findCombinations_loop_ok:
  assumes "\<forall>e\<in>set es. 0 \<le> fst e \<and> fst e \<le> 9" and "distinct (map fst es)"
  shows "\<exists>math'. findCombinations_loop es math = Inr math' \<and>
           (\<forall>k. map_of math' k =
              (case map_of es k of
                 None \<Rightarrow> map_of math k
               | Some amount \<Rightarrow> (case credit k amount of None \<Rightarrow> map_of math k | Some r \<Rightarrow> Some r)))"
  using assms
proof (induction es arbitrary: math)
  case Nil
  then show ?case by simp
next
  case (Cons e es)
  obtain item amount where e: "e = (item, amount)" by (cases e)
  have rng: "0 \<le> item" "item < int (length itemsRewards)"
    using Cons.prems(1) e by (auto simp: itemsRewards_def)
  have rest: "\<forall>e\<in>set es. 0 \<le> fst e \<and> fst e \<le> 9" "distinct (map fst es)"
    using Cons.prems by auto
  have notin: "map_of es item = None"
    using Cons.prems(2) e by (simp add: map_of_eq_None_iff)
  show ?case
  proof (cases "credit item amount")
    case None
    then have step: "findCombinations_loop (e # es) math = findCombinations_loop es math"
      using rng e by (auto simp: credit_def truthy_property_name split: option.splits if_splits)
    from Cons.IH[OF rest, of math] obtain math' where
      m: "findCombinations_loop es math = Inr math'"
         "\<forall>k. map_of math' k = (case map_of es k of None \<Rightarrow> map_of math k
               | Some amount \<Rightarrow> (case credit k amount of None \<Rightarrow> map_of math k | Some r \<Rightarrow> Some r))"
      by blast
    show ?thesis using step m None notin e by (auto split: option.splits)
  next
    case (Some r)
    then have step: "findCombinations_loop (e # es) math = findCombinations_loop es (obj_set item r math)"
      using rng e by (auto simp: credit_def truthy_property_name split: option.splits if_splits)
    from Cons.IH[OF rest, of "obj_set item r math"] obtain math' where
      m: "findCombinations_loop es (obj_set item r math) = Inr math'"
         "\<forall>k. map_of math' k = (case map_of es k of None \<Rightarrow> map_of (obj_set item r math) k
               | Some amount \<Rightarrow> (case credit k amount of None \<Rightarrow> map_of (obj_set item r math) k | Some r \<Rightarrow> Some r))"
      by blast
    show ?thesis using step m Some notin e by (auto simp: map_of_obj_set split: option.splits)
  qed
qed

lemma calculateReward_loop_sum: "calculateReward_loop math r = r + sum_list (map snd math)"
  by (induction math r rule: calculateReward_loop.induct) auto

lemma credit_low:
  assumes "0 \<le> k" "k \<le> 9" "credit k n = Some r"
  shows "(k = 0 \<longrightarrow> 4 \<le> n) \<and> (1 \<le> k \<longrightarrow> 8 \<le> n)"
proof -
  have "k = 0 \<or> k = 1 \<or> k = 2 \<or> k = 3 \<or> k = 4 \<or> k = 5 \<or> k = 6 \<or> k = 7 \<or> k = 8 \<or> k = 9"
    using assms(1,2) by presburger
  then show ?thesis using assms(3)
    by (auto simp: credit_def itemsRewards_def min_def split: if_splits)
qed

lemma credit_high:
  assumes "1 \<le> k" "k \<le> 9" "12 < n"
  shows "credit k n = map_of (itemsRewards ! nat k) 12" "credit k n \<noteq> None"
proof -
  have "k = 1 \<or> k = 2 \<or> k = 3 \<or> k = 4 \<or> k = 5 \<or> k = 6 \<or> k = 7 \<or> k = 8 \<or> k = 9"
    using assms(1,2) by presburger
  then show "credit k n = map_of (itemsRewards ! nat k) 12" "credit k n \<noteq> None" using assms(3)
    by (auto simp: credit_def itemsRewards_def min_def)
qed

lemma findCombinations_board:
  assumes "\<forall>c\<in>set board. 0 \<le> c \<and> c \<le> 9"
  shows "\<exists>math. findCombinations (groupItems board) = Inr math \<and>
           (\<forall>k. map_of math k =
              (if k \<in> set board then credit k (int (count_list board k)) else None))"
proof -
  let ?g = "groupItems board"
  have keys: "\<forall>e\<in>set ?g. 0 \<le> fst e \<and> fst e \<le> 9"
  proof
    fix e assume "e \<in> set ?g"
    then have "map_of ?g (fst e) \<noteq> None"
      by (metis map_of_eq_None_iff image_eqI)
    then have "fst e \<in> set board" by (simp add: map_of_groupItems split: if_splits)
    then show "0 \<le> fst e \<and> fst e \<le> 9" using assms by blast
  qed
  have dist: "distinct (map fst ?g)"
    using sorted_groupItems[of board] by (simp add: strict_sorted_iff)
  from findCombinations_loop_ok[OF keys dist, of "[]"] obtain math where
    m: "findCombinations_loop ?g [] = Inr math"
       "\<forall>k. map_of math k = (case map_of ?g k of None \<Rightarrow> map_of [] k
               | Some amount \<Rightarrow> (case credit k amount of None \<Rightarrow> map_of [] k | Some r \<Rightarrow> Some r))"
    by blast
  have "\<forall>k. map_of math k = (if k \<in> set board then credit k (int (count_list board k)) else None)"
    using m(2) by (auto simp: map_of_groupItems split: option.splits)
  then show ?thesis using m(1) by (simp add: findCombinations_def)
qed


subsection \<open>The matcher on a board\<close>

text \<open>
  C7. For every bid and every map of matched groups, \<open>calculateReward\<close> returns the bid
  times the sum of the multipliers of all groups in the map; for bid 10 and the map
  \<open>{0: 6}\<close> it returns 60.
\<close>

theorem calculateReward_is_bid_times_sum:
  "calculateReward bid math = bid * sum_list (map snd math) \<and> calculateReward 10 [(0, 6)] = 60"
  by (simp add: calculateReward_def calculateReward_loop_sum)

text \<open>
  C5. On a board of 30 cells holding kinds 0..9, \<open>findCombinations\<close> does not throw, and
  it credits kind 0 only when it occurs at least 4 times and a kind of 1..9 only when it
  occurs at least 8 times; a kind of 1..9 that occurs more than 12 times is credited with
  its entry for 12, so 15 cells of kind 1 give kind 1 the multiplier 100.
\<close>

theorem findCombinations_thresholds:
  assumes "length board = 30" and "\<forall>c\<in>set board. 0 \<le> c \<and> c \<le> 9"
  shows "\<exists>math. findCombinations (groupItems board) = Inr math \<and>
           (\<forall>k m. map_of math k = Some m \<longrightarrow>
              0 \<le> k \<and> k \<le> 9 \<and>
              (k = 0 \<longrightarrow> 4 \<le> count_list board k) \<and>
              (1 \<le> k \<longrightarrow> 8 \<le> count_list board k)) \<and>
           (\<forall>k. 1 \<le> k \<and> k \<le> 9 \<and> 12 < count_list board k \<longrightarrow>
              map_of math k = map_of (itemsRewards ! nat k) 12) \<and>
           (count_list board 1 = 15 \<longrightarrow> map_of math 1 = Some 100)"
proof -
  from findCombinations_board[OF assms(2)] obtain math where
    m: "findCombinations (groupItems board) = Inr math"
       "\<forall>k. map_of math k = (if k \<in> set board then credit k (int (count_list board k)) else None)"
    by blast
  have low: "0 \<le> k \<and> k \<le> 9 \<and> (k = 0 \<longrightarrow> 4 \<le> count_list board k) \<and>
             (1 \<le> k \<longrightarrow> 8 \<le> count_list board k)"
    if "map_of math k = Some r" for k r
  proof -
    have k: "k \<in> set board" and c: "credit k (int (count_list board k)) = Some r"
      using that m(2) by (auto split: if_splits)
    have rng: "0 \<le> k" "k \<le> 9" using k assms(2) by auto
    from credit_low[OF rng c] rng show ?thesis by simp
  qed
  have high: "map_of math k = map_of (itemsRewards ! nat k) 12"
    if "1 \<le> k \<and> k \<le> 9 \<and> 12 < count_list board k" for k
  proof -
    have "count_list board k \<noteq> 0" using that by simp
    then have "k \<in> set board" by (metis count_notin)
    then show ?thesis using that m(2) credit_high(1)[of k "int (count_list board k)"] by simp
  qed
  have fifteen: "map_of math 1 = Some 100" if "count_list board 1 = 15"
    using high[of 1] that by (simp add: itemsRewards_def)
  show ?thesis using m(1) low high fifteen by blast
qed

theorem findCombinations_thresholds_witness:
  "\<exists>math. findCombinations (groupItems (replicate 15 1 @ replicate 15 2)) = Inr math \<and>
     map_of math 1 = Some 100 \<and> map_of math 2 = Some 60"
proof -
  have len: "length (replicate 15 1 @ replicate 15 (2::int)) = 30" by simp
  have rng: "\<forall>c\<in>set (replicate 15 1 @ replicate 15 (2::int)). 0 \<le> c \<and> c \<le> 9" by auto
  have c1: "count_list (replicate 15 1 @ replicate 15 (2::int)) 1 = 15"
    by code_simp
  have c2: "count_list (replicate 15 1 @ replicate 15 (2::int)) 2 = 15"
    by code_simp
  from findCombinations_thresholds[OF len rng] obtain math where
    m: "findCombinations (groupItems (replicate 15 1 @ replicate 15 2)) = Inr math"
       "\<forall>k. 1 \<le> k \<and> k \<le> 9 \<and> 12 < count_list (replicate 15 1 @ replicate 15 (2::int)) k \<longrightarrow>
              map_of math k = map_of (itemsRewards ! nat k) 12"
       "count_list (replicate 15 1 @ replicate 15 (2::int)) 1 = 15 \<longrightarrow> map_of math 1 = Some 100"
    by blast
  have "map_of math 2 = map_of (itemsRewards ! nat 2) 12" using m(2) c2 by simp
  then have "map_of math 2 = Some 60" by (simp add: itemsRewards_def)
  then show ?thesis using m(1) m(3) c1 by blast
qed

lemma findCombinations_kind_0_above_6:
  assumes "\<forall>c\<in>set board. 0 \<le> c \<and> c \<le> 9" and "6 < count_list board 0"
  shows "\<exists>math. findCombinations (groupItems board) = Inr math \<and> map_of math 0 = None"
proof -
  from findCombinations_board[OF assms(1)] obtain math where
    m: "findCombinations (groupItems board) = Inr math"
       "\<forall>k. map_of math k = (if k \<in> set board then credit k (int (count_list board k)) else None)"
    by blast
  have "credit 0 (int (count_list board 0)) = None"
    using assms(2) by (auto simp: credit_def itemsRewards_def min_def)
  then show ?thesis using m by simp
qed

text \<open>
  C1. The claim is that a board with more than 6 cells of kind 0 has kind 0 credited as 6,
  with multiplier 200. On the board below, with exactly 7 cells of kind 0 and no other
  kind reaching 8, \<open>findCombinations\<close> credits nothing at all: the key it is given is the
  string \<open>"0"\<close>, which is truthy, so the cap applied to kind 0 is 12, the tally 7 is looked
  up unchanged, and the payout table of kind 0 has no entry at 7.
\<close>

theorem findCombinations_seven_of_kind_0:
  "findCombinations (groupItems
     [0, 0, 0, 0, 0, 0, 0, 1, 1, 1, 1, 1, 1, 1, 2, 2, 2, 2, 2, 2, 2, 3, 3, 3, 3, 3, 3, 3, 4, 4])
   = Inr []"
  by code_simp

subsection \<open>The cascade resolver: the move map\<close>

lemma set_obj_set_subset: "set (obj_set k v m) \<subseteq> insert (k, v) (set m)"
  by (induction m) (auto split: if_splits)

lemma find_in_set: "find P xs = Some j \<Longrightarrow> j \<in> set xs \<and> P j"
  by (induction xs) (auto split: if_splits)

lemma move_cell_entries:
  assumes "\<forall>(f, t)\<in>set m. f div 5 = t div 5 \<and> f \<noteq> t"
  shows "\<forall>(f, t)\<in>set (fst (move_cell x y (m, l))). f div 5 = t div 5 \<and> f \<noteq> t"
proof (cases "cell l (x * 5 + (4 - y)) = None")
  case False
  then show ?thesis using assms by (simp add: move_cell_def Let_def del: not_None_eq)
next
  case True
  show ?thesis
  proof (cases "find (\<lambda>j. cell l j \<noteq> None) (rev [x * 5..<x * 5 + (4 - y)])")
    case None
    then show ?thesis using assms True by (simp add: move_cell_def Let_def del: not_None_eq)
  next
    case (Some j)
    then have "j \<in> set (rev [x * 5..<x * 5 + (4 - y)])"
      by (rule find_in_set[THEN conjunct1])
    then have j: "x * 5 \<le> j" "j < x * 5 + (4 - y)" by auto
    have "j div 5 = x" "(x * 5 + (4 - y)) div 5 = x" using j by auto
    then have "int (j div 5) = int ((x * 5 + (4 - y)) div 5)" by simp
    then have "int j div 5 = int (x * 5 + (4 - y)) div 5" by (simp only: zdiv_int) simp
    moreover have "int j \<noteq> int (x * 5 + (4 - y))" using j by simp
    moreover have "fst (move_cell x y (m, l)) = obj_set (int j) (int (x * 5 + (4 - y))) m"
      using True Some by (simp add: move_cell_def Let_def del: not_None_eq)
    ultimately show ?thesis using assms set_obj_set_subset[of "int j" "int (x * 5 + (4 - y))" m]
      by auto
  qed
qed

lemma fold_move_cell_entries:
  assumes "\<forall>(f, t)\<in>set (fst p). f div 5 = t div 5 \<and> f \<noteq> t"
  shows "\<forall>(f, t)\<in>set (fst (fold (move_cell x) ys p)). f div 5 = t div 5 \<and> f \<noteq> t"
  using assms
proof (induction ys arbitrary: p)
  case Nil
  then show ?case by simp
next
  case (Cons y ys)
  have "\<forall>(f, t)\<in>set (fst (move_cell x y p)). f div 5 = t div 5 \<and> f \<noteq> t"
    using move_cell_entries[of "fst p" x y "snd p"] Cons.prems by simp
  from Cons.IH[OF this] show ?case by simp
qed

lemma fold_columns_entries:
  assumes "\<forall>(f, t)\<in>set (fst p). f div 5 = t div 5 \<and> f \<noteq> t"
  shows "\<forall>(f, t)\<in>set (fst (fold (\<lambda>x. fold (move_cell x) ys) xs p)). f div 5 = t div 5 \<and> f \<noteq> t"
  using assms
proof (induction xs arbitrary: p)
  case Nil
  then show ?case by simp
next
  case (Cons x xs)
  from Cons.IH[OF fold_move_cell_entries[OF Cons.prems]] show ?case by simp
qed

text \<open>
  C6. For every board and every list of blown cells, each entry \<open>from \<rightarrow> to\<close> of the move
  map that \<open>moveItems\<close> returns stays in its column, \<open>from div 5 = to div 5\<close>, and is a
  real relocation, \<open>from \<noteq> to\<close>.
\<close>

theorem moveItems_move_within_column:
  "\<forall>(from, to)\<in>set (fst (moveItems shown blow)). from div 5 = to div 5 \<and> from \<noteq> to"
  unfolding moveItems_def by (rule fold_columns_entries) simp

theorem moveItems_move_within_column_witness:
  "(15, 17) \<in> set (fst (moveItems
      [0,1,2,3,4, 0,1,2,3,4, 5,5,5,5,5, 1,0,1,0,1, 9,9,0,9,0, 0,0,0,0,1]
      [0,5,16,18,22,24,25,26,27,28])) \<and> (15::int) div 5 = 17 div 5 \<and> (15::int) \<noteq> 17"
proof -
  have m: "(15, 17) \<in> set (fst (moveItems
      [0,1,2,3,4, 0,1,2,3,4, 5,5,5,5,5, 1,0,1,0,1, 9,9,0,9,0, 0,0,0,0,1]
      [0,5,16,18,22,24,25,26,27,28]))"
    by code_simp
  from moveItems_move_within_column[THEN bspec, OF m] m show ?thesis by simp
qed


subsection \<open>The cascade resolver: the board\<close>

lemma upt4: "[0..<4] = [0, 1, 2, 3]"
  by code_simp

lemma cell_mid:
  "k < length col \<Longrightarrow> cell (pre @ col @ post) (length pre + k) = col ! k"
  by (simp add: cell_def nth_append)

lemma js_set_mid:
  "k < length col \<Longrightarrow> js_set (pre @ col @ post) (length pre + k) v = pre @ col[k := v] @ post"
  by (simp add: js_set_def list_update_append)

lemma upt_shift: "[n..<n + k] = map (\<lambda>j. n + j) [0..<k]"
  by (simp add: map_add_upt add.commute)

lemma cand:
  "rev [n..<n + 4] = [n + 3, n + 2, n + 1, n + 0]"
  "rev [n..<n + 3] = [n + 2, n + 1, n + 0]"
  "rev [n..<n + 2] = [n + 1, n + 0]"
  "rev [n..<n + 1] = [n + 0]"
proof -
  have "[0..<4] = [0, 1, 2, 3::nat]" "[0..<3] = [0, 1, 2::nat]" "[0..<2] = [0, 1::nat]" "[0..<1] = [0::nat]"
    by code_simp+
  then show "rev [n..<n + 4] = [n + 3, n + 2, n + 1, n + 0]"
  "rev [n..<n + 3] = [n + 2, n + 1, n + 0]"
  "rev [n..<n + 2] = [n + 1, n + 0]"
  "rev [n..<n + 1] = [n + 0]"
    by (simp_all add: upt_shift[of n])
qed

lemma snd_move_cell: "snd (move_cell x y (m, l)) = step_at (x * 5) (4 - y) l"
  by (simp add: move_cell_def step_at_def Let_def split: option.splits del: not_None_eq)

lemma snd_column_fold:
  "snd (fold (move_cell x) [0..<4] (m, l)) =
     step_at (x * 5) 1 (step_at (x * 5) 2 (step_at (x * 5) 3 (step_at (x * 5) 4 l)))"
proof -
  have s: "snd (move_cell x y p) = step_at (x * 5) (4 - y) (snd p)" for y p
    using snd_move_cell[of x y "fst p" "snd p"] by simp
  have f: "fold (move_cell x) [0, 1, 2, 3] p = move_cell x 3 (move_cell x 2 (move_cell x 1 (move_cell x 0 p)))" for p
    by simp
  show ?thesis unfolding upt4 f s by simp
qed

lemmas step_simps = step_at_def cand cell_def js_set_def nth_append list_update_append

lemma column_pass:
  "step_at (length pre) 1 (step_at (length pre) 2 (step_at (length pre) 3
     (step_at (length pre) 4 (pre @ [a, b, c, d, e] @ post)))) =
   pre @ settle [a, b, c, d, e] @ post"
  by (cases a; cases b; cases c; cases d; cases e)
     (simp_all add: step_simps settle_def symbols_def)


lemma length_symbols_le: "length (symbols cs) \<le> length cs"
  by (induction cs) (auto simp: symbols_def split: option.splits)

lemma length_settle: "length (settle col) = length col"
  using length_symbols_le[of col] by (simp add: settle_def)

lemma symbols_append: "symbols (xs @ ys) = symbols xs @ symbols ys"
  by (simp add: symbols_def)

lemma symbols_replicate_None: "symbols (replicate k None) = []"
  by (induction k) (auto simp: symbols_def)

lemma symbols_map_Some: "symbols (map Some vs) = vs"
  by (induction vs) (auto simp: symbols_def)

lemma symbols_settle: "symbols (settle col) = symbols col"
  by (simp add: settle_def symbols_append symbols_replicate_None symbols_map_Some)

lemma settle_compact:
  assumes "i < j" "j < length col" "settle col ! j = None"
  shows "settle col ! i = None"
proof -
  let ?k = "length col - length (symbols col)"
  have "j < ?k"
  proof (rule ccontr)
    assume "\<not> j < ?k"
    then have "settle col ! j = map Some (symbols col) ! (j - ?k)"
      by (simp add: settle_def nth_append)
    moreover have "j - ?k < length (symbols col)"
      using \<open>\<not> j < ?k\<close> assms(2) length_symbols_le[of col] by simp
    ultimately show False using assms(3) by simp
  qed
  then show ?thesis using assms(1) by (simp add: settle_def nth_append)
qed

lemma five_cells:
  assumes "length col = 5"
  obtains a b c d e where "col = [a, b, c, d, e]"
proof -
  from assms obtain a b c d e where "col = [a, b, c, d, e]"
    by (auto simp: length_Suc_conv numeral_eq_Suc)
  then show ?thesis using that by blast
qed

lemma column_split:
  assumes "length l = 30" "x < 6"
  shows "l = take (x * 5) l @ column x l @ drop (x * 5 + 5) l"
    and "length (take (x * 5) l) = x * 5" and "length (column x l) = 5"
proof -
  have "drop (x * 5 + 5) l = drop 5 (drop (x * 5) l)" by (simp add: add.commute)
  then have "take 5 (drop (x * 5) l) @ drop (x * 5 + 5) l = drop (x * 5) l"
    by (simp only: append_take_drop_id)
  then have "take (x * 5) l @ take 5 (drop (x * 5) l) @ drop (x * 5 + 5) l = l"
    by (simp only: append_take_drop_id)
  then show "l = take (x * 5) l @ column x l @ drop (x * 5 + 5) l"
    by (simp add: column_def mult.commute)
  show "length (take (x * 5) l) = x * 5" using assms by simp
  show "length (column x l) = 5" using assms by (simp add: column_def)
qed

lemma column_of_parts:
  assumes "length pre = x * 5" "length mid = 5"
  shows "column x (pre @ mid @ post) = mid"
  using assms by (simp add: column_def mult.commute)

lemma column_frame:
  assumes "length pre = x * 5" "length mid = 5" "length mid' = 5" "x' \<noteq> x"
  shows "column x' (pre @ mid' @ post) = column x' (pre @ mid @ post)"
proof (cases "x' < x")
  case True
  then have "5 * x' + 5 \<le> length pre" using assms(1) by simp
  then show ?thesis by (simp add: column_def)
next
  case False
  then have "length pre + 5 \<le> 5 * x'" using assms(1,4) by simp
  then show ?thesis using assms(2,3) by (simp add: column_def)
qed

lemma column_fold_parts:
  assumes "length pre = x * 5"
  shows "snd (fold (move_cell x) [0..<4] (m, pre @ [a, b, c, d, e] @ post)) =
           pre @ settle [a, b, c, d, e] @ post"
  unfolding snd_column_fold assms[symmetric] by (rule column_pass)

lemma column_fold_board:
  assumes "length l = 30" "x < 6"
  shows "snd (fold (move_cell x) [0..<4] (m, l)) =
           take (x * 5) l @ settle (column x l) @ drop (x * 5 + 5) l"
proof -
  obtain a b c d e where col: "column x l = [a, b, c, d, e]"
    using five_cells[OF column_split(3)[OF assms]] by blast
  let ?pre = "take (x * 5) l" and ?post = "drop (x * 5 + 5) l"
  have l: "l = ?pre @ [a, b, c, d, e] @ ?post"
    using column_split(1)[OF assms] col by simp
  have "snd (fold (move_cell x) [0..<4] (m, ?pre @ [a, b, c, d, e] @ ?post)) =
          ?pre @ settle [a, b, c, d, e] @ ?post"
    by (rule column_fold_parts[OF column_split(2)[OF assms]])
  then show ?thesis using l col by simp
qed

lemma columns_fold_board:
  assumes "length l = 30" "n \<le> 6"
  shows "length (snd (fold (\<lambda>x. fold (move_cell x) [0..<4]) [0..<n] (m, l))) = 30 \<and>
         (\<forall>x<6. column x (snd (fold (\<lambda>x. fold (move_cell x) [0..<4]) [0..<n] (m, l))) =
                  (if x < n then settle (column x l) else column x l))"
  using assms(2)
proof (induction n)
  case 0
  then show ?case using assms(1) by simp
next
  case (Suc n)
  let ?p = "fold (\<lambda>x. fold (move_cell x) [0..<4]) [0..<n] (m, l)"
  let ?b = "snd ?p"
  have ih: "length ?b = 30" "\<forall>x<6. column x ?b = (if x < n then settle (column x l) else column x l)"
    using Suc by simp_all
  have n6: "n < 6" using Suc.prems by simp
  let ?pre = "take (n * 5) ?b" and ?post = "drop (n * 5 + 5) ?b"
  have step: "snd (fold (\<lambda>x. fold (move_cell x) [0..<4]) [0..<Suc n] (m, l)) =
                ?pre @ settle (column n ?b) @ ?post"
    using column_fold_board[OF ih(1) n6, of "fst ?p"] by simp
  have parts: "?b = ?pre @ column n ?b @ ?post" "length ?pre = n * 5" "length (column n ?b) = 5"
    using column_split[OF ih(1) n6] by simp_all
  have len5: "length (settle (column n ?b)) = 5" using parts(3) by (simp add: length_settle)
  have len: "length (?pre @ settle (column n ?b) @ ?post) = 30"
  proof -
    have "length (?pre @ settle (column n ?b) @ ?post) = length (?pre @ column n ?b @ ?post)"
      using len5 parts(3) by simp
    then show ?thesis using parts(1) ih(1) by simp
  qed
  have cols: "column x (?pre @ settle (column n ?b) @ ?post) =
                (if x < Suc n then settle (column x l) else column x l)" if "x < 6" for x
  proof (cases "x = n")
    case True
    have "column n (?pre @ settle (column n ?b) @ ?post) = settle (column n ?b)"
      by (rule column_of_parts[OF parts(2) len5])
    then show ?thesis using True ih(2) n6 by simp
  next
    case False
    have "column x (?pre @ settle (column n ?b) @ ?post) = column x (?pre @ column n ?b @ ?post)"
      by (rule column_frame[OF parts(2) parts(3) len5 False])
    then have "column x (?pre @ settle (column n ?b) @ ?post) = column x ?b"
      using parts(1) by simp
    then show ?thesis using False ih(2) that by auto
  qed
  show ?case unfolding step using len cols by blast
qed

lemma symbols_cleared:
  "symbols (map (\<lambda>i. if i \<in> set blow then None else Some (shown ! i)) is) =
     map (\<lambda>i. shown ! i) (filter (\<lambda>i. i \<notin> set blow) is)"
  by (induction "is") (auto simp: symbols_def)

lemma column_cleared:
  assumes "length shown = 30" "x < 6"
  shows "column x (map (\<lambda>(i, v). if i \<in> set blow then None else Some v) (enumerate 0 shown)) =
           map (\<lambda>i. if i \<in> set blow then None else Some (shown ! i)) [5 * x..<5 * x + 5]"
proof (rule nth_equalityI)
  show "length (column x (map (\<lambda>(i, v). if i \<in> set blow then None else Some v) (enumerate 0 shown))) =
        length (map (\<lambda>i. if i \<in> set blow then None else Some (shown ! i)) [5 * x..<5 * x + 5])"
    using assms by (simp add: column_def)
next
  fix k assume "k < length (column x (map (\<lambda>(i, v). if i \<in> set blow then None else Some v) (enumerate 0 shown)))"
  then have k: "k < 5" using assms by (simp add: column_def)
  then have "5 * x + k < length shown" using assms by simp
  then show "column x (map (\<lambda>(i, v). if i \<in> set blow then None else Some v) (enumerate 0 shown)) ! k =
             map (\<lambda>i. if i \<in> set blow then None else Some (shown ! i)) [5 * x..<5 * x + 5] ! k"
    using k assms by (simp add: column_def nth_enumerate_eq)
qed

text \<open>
  C9. For every board of 30 cells and every list of blown cells, in each column of the
  board that \<open>moveItems\<close> returns the symbols are exactly (as a multiset) the cells of
  that column of the input that are not blown, and an empty cell has only empty cells
  above it: the column is compacted downward. The board keeps its 30 cells.
\<close>

theorem moveItems_settles_columns:
  assumes "length shown = 30" and "x < 6"
  shows "length (snd (moveItems shown blow)) = 30 \<and>
         mset (symbols (column x (snd (moveItems shown blow)))) =
           mset (map (\<lambda>i. shown ! i) (filter (\<lambda>i. i \<notin> set blow) [5 * x..<5 * x + 5])) \<and>
         (\<forall>i j. i < j \<and> j < 5 \<and> column x (snd (moveItems shown blow)) ! j = None \<longrightarrow>
                column x (snd (moveItems shown blow)) ! i = None)"
proof -
  let ?l0 = "map (\<lambda>(i, v). if i \<in> set blow then None else Some v) (enumerate 0 shown)"
  have l0: "length ?l0 = 30" using assms(1) by simp
  from columns_fold_board[OF l0, of 6 "[]"] assms(2)
  have len: "length (snd (moveItems shown blow)) = 30"
    and col: "column x (snd (moveItems shown blow)) = settle (column x ?l0)"
    by (simp_all add: moveItems_def)
  have c5: "length (column x ?l0) = 5" using column_split(3)[OF l0 assms(2)] .
  have "symbols (column x (snd (moveItems shown blow))) =
          map (\<lambda>i. shown ! i) (filter (\<lambda>i. i \<notin> set blow) [5 * x..<5 * x + 5])"
    unfolding col symbols_settle column_cleared[OF assms] by (rule symbols_cleared)
  moreover have "column x (snd (moveItems shown blow)) ! i = None"
    if "i < j \<and> j < 5 \<and> column x (snd (moveItems shown blow)) ! j = None" for i j
    using that settle_compact[of i j "column x ?l0"] c5 unfolding col by simp
  ultimately show ?thesis using len by simp
qed


theorem moveItems_settles_columns_witness:
  "length (snd (moveItems
      [0,1,2,3,4, 0,1,2,3,4, 5,5,5,5,5, 1,0,1,0,1, 9,9,0,9,0, 0,0,0,0,1]
      [0,5,16,18,22,24,25,26,27,28])) = 30 \<and>
   mset (symbols (column 3 (snd (moveItems
      [0,1,2,3,4, 0,1,2,3,4, 5,5,5,5,5, 1,0,1,0,1, 9,9,0,9,0, 0,0,0,0,1]
      [0,5,16,18,22,24,25,26,27,28])))) = mset [1, 1, 1]"
proof -
  let ?b = "[0,1,2,3,4, 0,1,2,3,4, 5,5,5,5,5, 1,0,1,0,1, 9,9,0,9,0, 0,0,0,0,1] :: int list"
  let ?bl = "[0,5,16,18,22,24,25,26,27,28] :: nat list"
  have len: "length ?b = 30" by simp
  have x: "(3::nat) < 6" by simp
  have rhs: "map (\<lambda>i. ?b ! i) (filter (\<lambda>i. i \<notin> set ?bl) [5 * 3..<5 * 3 + 5]) = [1, 1, 1]"
    by code_simp
  from moveItems_settles_columns[OF len x, of ?bl] show ?thesis
    unfolding rhs by blast
qed

subsection \<open>The board generator\<close>

lemma itemsRanges_nearest:
  "\<bar>binary64 5764607523034235 59 - 1 / 100\<bar> < 1 / 2 ^ 60"
  "\<bar>binary64 8646911284551352 58 - 3 / 100\<bar> < 1 / 2 ^ 59"
  "\<bar>binary64 5044031582654956 56 - 7 / 100\<bar> < 1 / 2 ^ 57"
  "\<bar>binary64 5764607523034235 55 - 16 / 100\<bar> < 1 / 2 ^ 56"
  "\<bar>binary64 5044031582654956 54 - 28 / 100\<bar> < 1 / 2 ^ 55"
  "\<bar>binary64 7205759403792794 54 - 40 / 100\<bar> < 1 / 2 ^ 55"
  "\<bar>binary64 4683743612465316 53 - 52 / 100\<bar> < 1 / 2 ^ 54"
  "\<bar>binary64 6124895493223875 53 - 68 / 100\<bar> < 1 / 2 ^ 54"
  "\<bar>binary64 7566047373982433 53 - 84 / 100\<bar> < 1 / 2 ^ 54"
  "\<forall>m\<in>{5764607523034235, 8646911284551352, 5044031582654956, 7205759403792794,
        4683743612465316, 6124895493223875, 7566047373982433}. (2::int) ^ 52 \<le> m \<and> m < 2 ^ 53"
  by (simp_all add: binary64_def)

lemma findIndex_itemsRanges:
  assumes "r < 1"
  shows "0 \<le> findIndex (\<lambda>v. r \<le> v) itemsRanges \<and> findIndex (\<lambda>v. r \<le> v) itemsRanges \<le> 9"
  using assms by (simp add: findIndex_def itemsRanges_def)

lemma Math_round_scaled:
  assumes "0 \<le> r" "r < 1" "0 \<le> k"
  shows "0 \<le> Math_round (r * of_int k) \<and> Math_round (r * of_int k) \<le> k"
proof -
  have "0 \<le> r * of_int k" using assms by simp
  then have lo: "0 \<le> Math_round (r * of_int k)" by (simp add: Math_round_def)
  have "r * of_int k \<le> of_int k" using assms by (simp add: mult_left_le_one_le)
  then have "r * of_int k + 1 / 2 < of_int (k + 1)" by simp
  then have "Math_round (r * of_int k) < k + 1" unfolding Math_round_def by (simp only: floor_less_iff)
  then show ?thesis using lo by simp
qed

lemma showcase_write_ok:
  assumes "cells_ok a" "0 \<le> r" "r < 1" "0 \<le> t" "t \<le> 9"
  shows "cells_ok (let i = Math_round (r * 29) in if 0 \<le> i then js_set a (nat i) (Some t) else a)"
proof -
  have "0 \<le> Math_round (r * of_int 29) \<and> Math_round (r * of_int 29) \<le> 29"
    by (rule Math_round_scaled) (use assms in simp_all)
  then have i: "0 \<le> Math_round (r * 29)" "nat (Math_round (r * 29)) < length a"
    using assms(1) by (auto simp: cells_ok_def)
  have "set (a[nat (Math_round (r * 29)) := Some t]) \<subseteq> insert (Some t) (set a)"
    by (rule set_update_subset_insert)
  then show ?thesis using i assms by (auto simp: cells_ok_def js_set_def Let_def)
qed

lemma showcase_fold_ok:
  assumes "draws_ok rnd" "cells_ok a" "0 \<le> t" "t \<le> 9"
  shows "cells_ok (fold (\<lambda>n a. let i = Math_round (rnd (c + 1 + n) * 29) in
                          if 0 \<le> i then js_set a (nat i) (Some t) else a) ns a)"
  using assms(2)
proof (induction ns arbitrary: a)
  case Nil
  then show ?case by simp
next
  case (Cons n ns)
  have "cells_ok (let i = Math_round (rnd (c + 1 + n) * 29) in
                  if 0 \<le> i then js_set a (nat i) (Some t) else a)"
    using showcase_write_ok[OF Cons.prems _ _ assms(3,4), of "rnd (c + 1 + n)"] assms(1)
    by (simp add: draws_ok_def)
  from Cons.IH[OF this] show ?case by simp
qed

lemma showcase_ok:
  assumes "draws_ok rnd" "cells_ok a"
  shows "\<exists>a' c'. showcase rnd c a = Inr (a', c') \<and> cells_ok a'"
proof -
  let ?random = "Math_round (rnd c * of_int (int (length showcaseCombinations) - 1))"
  have "0 \<le> Math_round (rnd c * of_int 3) \<and> Math_round (rnd c * of_int 3) \<le> 3"
    by (rule Math_round_scaled) (use assms(1) in \<open>simp_all add: draws_ok_def\<close>)
  then have r: "0 \<le> ?random" "?random \<le> 3" by (simp_all add: showcaseCombinations_def)
  then have "?random = 0 \<or> ?random = 1 \<or> ?random = 2 \<or> ?random = 3" by presburger
  then obtain t n where tn: "showcaseCombinations ! nat ?random = (t, n)" "0 \<le> t" "t \<le> 9"
    by (auto simp: showcaseCombinations_def)
  have "showcase rnd c a =
          Inr (fold (\<lambda>n a. let i = Math_round (rnd (c + 1 + n) * 29) in
                          if 0 \<le> i then js_set a (nat i) (Some t) else a) [0..<n] a, c + 1 + n)"
    using r tn(1) unfolding showcase_def Let_def by (simp add: showcaseCombinations_def)
  then show ?thesis using showcase_fold_ok[OF assms tn(2,3)] by simp
qed

lemma enumerate_item: "(n, item) \<in> set (enumerate k xs) \<Longrightarrow> item \<in> set xs"
  by (auto simp: enumerate_eq_zip dest: set_zip_rightD)

lemma fill_map_ok:
  assumes "draws_ok rnd" "cells_ok a" 
  shows "length (map (\<lambda>(n, item). let random = rnd (c + n) in
                      case item of None \<Rightarrow> findIndex (\<lambda>v. random \<le> v) itemsRanges | Some v \<Rightarrow> v)
                 (enumerate 0 a)) = 30 \<and>
         (\<forall>v\<in>set (map (\<lambda>(n, item). let random = rnd (c + n) in
                      case item of None \<Rightarrow> findIndex (\<lambda>v. random \<le> v) itemsRanges | Some v \<Rightarrow> v)
                 (enumerate 0 a)). 0 \<le> v \<and> v \<le> 9)"
proof -
  have "0 \<le> (let random = rnd (c + n) in
          case item of None \<Rightarrow> findIndex (\<lambda>v. random \<le> v) itemsRanges | Some v \<Rightarrow> v) \<and>
        (let random = rnd (c + n) in
          case item of None \<Rightarrow> findIndex (\<lambda>v. random \<le> v) itemsRanges | Some v \<Rightarrow> v) \<le> 9"
    if "(n, item) \<in> set (enumerate 0 a)" for n item
  proof (cases item)
    case None
    have "rnd (c + n) < 1" using assms(1) by (simp add: draws_ok_def)
    from findIndex_itemsRanges[OF this] show ?thesis using None by simp
  next
    case (Some v)
    have "item \<in> set a" using that by (rule enumerate_item)
    then show ?thesis using Some assms(2) by (simp add: cells_ok_def)
  qed
  then show ?thesis using assms(2) by (auto simp: cells_ok_def)
qed


text \<open>
  C10. With draws in \<open>[0, 1)\<close>, on every board of 30 cells whose filled cells hold kinds
  0..9, \<open>fillItems\<close> does not throw and every cell of the array it returns holds a kind in
  0..9: the threshold search never answers \<open>-1\<close>, the last threshold being 1, and the
  showcase writes only to cells 0..29.
\<close>

theorem fillItems_kinds_in_range:
  assumes "draws_ok rnd" and "length board = 30"
    and "\<forall>c\<in>set board. \<forall>v. c = Some v \<longrightarrow> 0 \<le> v \<and> v \<le> 9"
  shows "(\<exists>shown written gs' c'.
            fillItems rnd c gs board = Inr (shown, written, gs', c') \<and>
            length shown = 30 \<and> (\<forall>v\<in>set shown. 0 \<le> v \<and> v \<le> 9)) \<and>
         (\<forall>n. findIndex (\<lambda>v. rnd n \<le> v) itemsRanges \<noteq> - 1) \<and>
         (\<forall>n. 0 \<le> Math_round (rnd n * 29) \<and> Math_round (rnd n * 29) \<le> 29)"
proof -
  have ok: "cells_ok board" using assms(2,3) by (simp add: cells_ok_def)
  have fill: "\<exists>shown written gs' c'.
            fillItems rnd c gs board = Inr (shown, written, gs', c') \<and>
            length shown = 30 \<and> (\<forall>v\<in>set shown. 0 \<le> v \<and> v \<le> 9)"
  proof (cases "fails gs > 3")
    case True
    from showcase_ok[OF assms(1) ok, of c] obtain a' c' where
      sc: "showcase rnd c board = Inr (a', c')" "cells_ok a'" by blast
    have "fillItems rnd c gs board =
            Inr (map (\<lambda>(n, item). let random = rnd (c' + n) in
                      case item of None \<Rightarrow> findIndex (\<lambda>v. random \<le> v) itemsRanges | Some v \<Rightarrow> v)
                 (enumerate 0 a'), a', gs\<lparr>fails := 0\<rparr>, c' + length a')"
      using True sc(1) by (simp add: fillItems_def)
    then show ?thesis using fill_map_ok[OF assms(1) sc(2), of c'] by blast
  next
    case False
    then have "fillItems rnd c gs board =
            Inr (map (\<lambda>(n, item). let random = rnd (c + n) in
                      case item of None \<Rightarrow> findIndex (\<lambda>v. random \<le> v) itemsRanges | Some v \<Rightarrow> v)
                 (enumerate 0 board), board, gs, c + length board)"
      by (simp add: fillItems_def)
    then show ?thesis using fill_map_ok[OF assms(1) ok, of c] by blast
  qed
  have idx: "findIndex (\<lambda>v. rnd n \<le> v) itemsRanges \<noteq> - 1" for n
  proof -
    have "rnd n < 1" using assms(1) by (simp add: draws_ok_def)
    from findIndex_itemsRanges[OF this] show ?thesis by simp
  qed
  have cellidx: "0 \<le> Math_round (rnd n * 29) \<and> Math_round (rnd n * 29) \<le> 29" for n
    using Math_round_scaled[of "rnd n" 29] assms(1) by (simp add: draws_ok_def)
  show ?thesis using fill idx cellidx by blast
qed

theorem fillItems_kinds_in_range_witness:
  "\<exists>shown written gs' c'.
      fillItems (\<lambda>n. 1 / 2) 0 \<lparr>balance = 100, index = 0, fails = 4\<rparr> (replicate 30 None) =
        Inr (shown, written, gs', c') \<and>
      length shown = 30 \<and> (\<forall>v\<in>set shown. 0 \<le> v \<and> v \<le> 9)"
proof -
  have d: "draws_ok (\<lambda>n. 1 / 2)" by (simp add: draws_ok_def)
  have l: "length (replicate 30 (None :: int option)) = 30" by simp
  have r: "\<forall>c\<in>set (replicate 30 (None :: int option)). \<forall>v. c = Some v \<longrightarrow> 0 \<le> v \<and> v \<le> 9"
    by simp
  from fillItems_kinds_in_range[OF d l r, of 0 "\<lparr>balance = 100, index = 0, fails = 4\<rparr>"]
  show ?thesis by blast
qed

subsection \<open>Idle spins\<close>

lemma demo_kinds:
  "set (map (\<lambda>k. int (k mod 10)) [0..<30]) = {0, 1, 2, 3, 4, 5, 6, 7, 8, 9}"
  "\<forall>k\<in>{0, 1, 2, 3, 4, 5, 6, 7, 8, 9}. count_list (map (\<lambda>k. int (k mod 10)) [0..<30]) k = 3"
  by code_simp+

lemma fakeItems_mset:
  assumes "sort_ok srt"
  shows "mset (fst (fakeItems rnd srt c)) = mset (map (\<lambda>k. int (k mod 10)) [0..<30])"
proof -
  let ?xs = "map (\<lambda>k. (int (k mod 10), rnd (c + k))) [0..<30]"
  have "mset (map fst (srt ?xs)) = image_mset fst (mset (srt ?xs))" by (simp only: mset_map)
  also have "\<dots> = image_mset fst (mset ?xs)" using assms by (simp add: sort_ok_def)
  also have "\<dots> = mset (map fst ?xs)" by (simp only: mset_map)
  also have "map fst ?xs = map (\<lambda>k. int (k mod 10)) [0..<30]" by (simp add: comp_def)
  finally show ?thesis by (simp add: fakeItems_def)
qed

lemma credit_three: "k \<in> {0, 1, 2, 3, 4, 5, 6, 7, 8, 9} \<Longrightarrow> credit k 3 = None"
  by (auto simp: credit_def itemsRewards_def)

lemma fakeItems_no_match:
  assumes "sort_ok srt"
  shows "findCombinations (groupItems (fst (fakeItems rnd srt c))) = Inr []"
proof -
  let ?shown = "fst (fakeItems rnd srt c)"
  let ?demo = "map (\<lambda>k. int (k mod 10)) [0..<30]"
  have ms: "mset ?shown = mset ?demo" by (rule fakeItems_mset[OF assms])
  have st: "set ?shown = {0, 1, 2, 3, 4, 5, 6, 7, 8, 9}"
    using mset_eq_setD[OF ms] demo_kinds(1) by simp
  have cnt: "count_list ?shown k = 3" if "k \<in> set ?shown" for k
  proof -
    have "count_list ?shown k = count (mset ?shown) k" by (simp only: count_mset)
    also have "\<dots> = count_list ?demo k" by (simp only: ms count_mset)
    finally have "count_list ?shown k = count_list ?demo k" .
    moreover have "k \<in> {0, 1, 2, 3, 4, 5, 6, 7, 8, 9}" using that st by blast
    ultimately show ?thesis using demo_kinds(2) by (simp only:)
  qed
  have rng: "\<forall>c\<in>set ?shown. 0 \<le> c \<and> c \<le> 9" unfolding st by simp
  from findCombinations_board[OF rng] obtain math where
    m: "findCombinations (groupItems ?shown) = Inr math"
       "\<forall>k. map_of math k = (if k \<in> set ?shown then credit k (int (count_list ?shown k)) else None)"
    by blast
  have "map_of math k = None" for k
  proof (cases "k \<in> set ?shown")
    case True
    then show ?thesis using m(2) cnt[OF True] credit_three[of k] st by simp
  next
    case False
    then show ?thesis using m(2) by simp
  qed
  then have "map_of math = Map.empty" by (simp add: fun_eq_iff)
  then have "math = []" by (simp only: map_of_eq_empty_iff)
  then show ?thesis using m(1) by simp
qed

lemma round_body_idle:
  assumes "sort_ok srt"
  shows "\<exists>s'. round_body rnd srt bid True s = Inr s' \<and> reward s' = 0 \<and>
           rounds s' = alias_write (rounds s) (items s) @
              [\<lparr>r_id = index (this s) + 1, r_bid = bid, r_reward = 0, r_profit = profit s,
                r_balance = balance_now s, r_show = fst (fakeItems rnd srt (calls s)),
                r_blow = [], r_last = snd (moveItems (fst (fakeItems rnd srt (calls s))) []),
                r_math = [], r_move = fst (moveItems (fst (fakeItems rnd srt (calls s))) [])\<rparr>] \<and>
           this s' = (this s)\<lparr>index := index (this s) + 1\<rparr> \<and>
           balance_now s' = balance_now s \<and> calls s' = calls s + 30"
  using fakeItems_no_match[OF assms, of rnd "calls s"]
  by (simp add: round_body_def Let_def split_beta blowItems_def calculateReward_def fakeItems_def)

text \<open>
  C3. For every bid with \<open>bid \<le> 0\<close> or \<open>bid > balance\<close>, \<open>spin\<close> returns, with exactly
  one round, whose reward is 0, and the balance of the engine is what it was. (The host's
  sort is only required to permute.)
\<close>

theorem spin_idle_single_round:
  assumes "sort_ok srt" and "bid \<le> 0 \<or> bid > balance gs"
  shows "\<exists>r gs' c'. spin rnd srt bid gs c = Some (Inr ([r], gs', c')) \<and>
           r_reward r = 0 \<and> balance gs' = balance gs"
proof -
  let ?s0 = "spin_start bid gs c"
  from round_body_idle[OF assms(1), of rnd bid ?s0] obtain s' where
    s': "round_body rnd srt bid True ?s0 = Inr s'" "reward s' = 0"
        "\<exists>r. rounds s' = [r] \<and> r_reward r = 0"
        "this s' = (this ?s0)\<lparr>index := index (this ?s0) + 1\<rparr>"
    by (auto simp: spin_start_def alias_write_def)
  have loop: "spin_loop rnd srt bid True ?s0 = Some (Inr s')"
    by (subst spin_loop.simps) (simp add: s')
  obtain r where r: "rounds s' = [r]" "r_reward r = 0" using s'(3) by blast
  have "spin rnd srt bid gs c = Some (Inr (spin_finish True s'))"
    using assms(2) loop by (simp add: spin_def)
  moreover have "spin_finish True s' = ([r], (this s')\<lparr>fails := fails (this s') + 1\<rparr>, calls s')"
    using r by (simp add: spin_finish_def Let_def)
  moreover have "balance ((this s')\<lparr>fails := fails (this s') + 1\<rparr>) = balance gs"
    using s'(4) by (simp add: spin_start_def)
  ultimately show ?thesis using r(2) by (intro exI[of _ r] exI[of _ "(this s')\<lparr>fails := fails (this s') + 1\<rparr>"] exI[of _ "calls s'"]) simp
qed


theorem spin_idle_single_round_witness:
  "\<exists>r gs' c'. spin (\<lambda>n. 1 / 2) (\<lambda>xs. xs) 200 \<lparr>balance = 100, index = 0, fails = 0\<rparr> 0 =
       Some (Inr ([r], gs', c')) \<and>
     r_reward r = 0 \<and> balance gs' = balance \<lparr>balance = 100, index = 0, fails = 0\<rparr>"
proof -
  have s: "sort_ok (\<lambda>xs. xs)" by (simp add: sort_ok_def)
  have b: "(200::int) \<le> 0 \<or> 200 > balance \<lparr>balance = 100, index = 0, fails = 0\<rparr>" by simp
  show ?thesis by (rule spin_idle_single_round[OF s b])
qed

subsection \<open>The loop of spin\<close>

lemma fillItems_index:
  "fillItems rnd c gs b = Inr (shown, w, gs', c') \<Longrightarrow> index gs' = index gs"
  by (auto simp: fillItems_def split: if_splits sum.splits prod.splits)

lemma alias_write_ids: "map r_id (alias_write rs w) = map r_id rs"
proof (cases rs rule: rev_cases)
  case Nil
  then show ?thesis by (simp add: alias_write_def)
next
  case (snoc ys y)
  then show ?thesis by (simp add: alias_write_def)
qed

lemma round_body_unfold:
  "round_body rnd srt bid idle s =
        (case fill_step rnd srt idle s of
           Inl e \<Rightarrow> Inl e
         | Inr (shown, written, gs2, c) \<Rightarrow>
            (case findCombinations (groupItems shown) of
               Inl e \<Rightarrow> Inl e
             | Inr math \<Rightarrow>
                Inr \<lparr>this = gs2, calls = c, profit = profit s + calculateReward bid math,
           reward = calculateReward bid math,
           balance_now = balance_now s + calculateReward bid math,
           items = snd (moveItems shown (blowItems shown math)),
           rounds = alias_write (rounds s) written @
             [\<lparr>r_id = index (this s) + 1, r_bid = bid, r_reward = calculateReward bid math,
               r_profit = profit s + calculateReward bid math,
               r_balance = balance_now s + calculateReward bid math,
               r_show = shown, r_blow = blowItems shown math,
               r_last = snd (moveItems shown (blowItems shown math)),
               r_math = math, r_move = fst (moveItems shown (blowItems shown math))\<rparr>]\<rparr>))"
  unfolding round_body_def fill_step_def Let_def
  by (cases idle) (simp_all add: case_prod_beta split: sum.splits)

lemma round_body_cases:
  assumes "round_body rnd srt bid idle s = Inr s'"
  obtains shown written gs2 c math where
    "fill_step rnd srt idle s = Inr (shown, written, gs2, c)"
    "findCombinations (groupItems shown) = Inr math"
    "s' = \<lparr>this = gs2, calls = c, profit = profit s + calculateReward bid math,
           reward = calculateReward bid math,
           balance_now = balance_now s + calculateReward bid math,
           items = snd (moveItems shown (blowItems shown math)),
           rounds = alias_write (rounds s) written @
             [\<lparr>r_id = index (this s) + 1, r_bid = bid, r_reward = calculateReward bid math,
               r_profit = profit s + calculateReward bid math,
               r_balance = balance_now s + calculateReward bid math,
               r_show = shown, r_blow = blowItems shown math,
               r_last = snd (moveItems shown (blowItems shown math)),
               r_math = math, r_move = fst (moveItems shown (blowItems shown math))\<rparr>]\<rparr>"
proof (cases "fill_step rnd srt idle s")
  case (Inl e)
  then show ?thesis using assms by (simp add: round_body_unfold)
next
  case (Inr q)
  obtain shown written gs2 c where q: "q = (shown, written, gs2, c)" by (cases q)
  show ?thesis
  proof (cases "findCombinations (groupItems shown)")
    case (Inl e)
    then show ?thesis using assms Inr q by (simp add: round_body_unfold)
  next
    case math: (Inr math)
    show ?thesis
      by (rule that[of shown written gs2 c math])
         (use assms Inr q math in \<open>simp_all add: round_body_unfold\<close>)
  qed
qed

lemma fillItems_plain:
  "\<not> 3 < fails gs \<Longrightarrow>
     fillItems rnd c gs its =
       Inr (map (\<lambda>(n, item). let random = rnd (c + n) in
                   case item of None \<Rightarrow> findIndex (\<lambda>v. random \<le> v) itemsRanges | Some v \<Rightarrow> v)
              (enumerate 0 its), its, gs, c + length its)"
  by (simp add: fillItems_def)

lemma fill_step_index:
  "fill_step rnd srt idle s = Inr (shown, w, gs2, c) \<Longrightarrow> index gs2 = index (this s) + 1"
  using fillItems_index[of rnd "calls s" "(this s)\<lparr>index := index (this s) + 1\<rparr>" "items s" shown w gs2 c]
  by (cases idle) (auto simp: fill_step_def)

lemma round_body_ids:
  assumes "round_body rnd srt bid idle s = Inr s'"
  shows "index (this s') = index (this s) + 1 \<and>
         map r_id (rounds s') = map r_id (rounds s) @ [index (this s) + 1]"
proof -
  from assms obtain shown written gs2 c math where
    f: "fill_step rnd srt idle s = Inr (shown, written, gs2, c)"
    and s': "this s' = gs2" "map r_id (rounds s') = map r_id (alias_write (rounds s) written) @ [index (this s) + 1]"
    by (rule round_body_cases) simp
  show ?thesis using fill_step_index[OF f] s' by (simp add: alias_write_ids)
qed

lemma round_body_ids_from:
  assumes "ids_from base s" "round_body rnd srt bid idle s = Inr s'" 
  shows "ids_from base s'"
proof -
  from round_body_ids[OF assms(2)] have
    i: "index (this s') = index (this s) + 1"
       "map r_id (rounds s') = map r_id (rounds s) @ [index (this s) + 1]" by simp_all
  have len: "length (rounds s') = Suc (length (rounds s))"
    using arg_cong[OF i(2), of length] by simp
  show ?thesis using assms(1) i unfolding ids_from_def len by simp
qed

lemma spin_loop_upto_sound:
  "spin_loop_upto n rnd srt bid idle s = Some y \<Longrightarrow> spin_loop rnd srt bid idle s = Some y"
proof (induction n arbitrary: s)
  case 0
  then show ?case by simp
next
  case (Suc n)
  show ?case
  proof (cases "round_body rnd srt bid idle s")
    case (Inl e)
    then have "y = Inl e" using Suc.prems by simp
    then show ?thesis by (subst spin_loop.simps) (simp add: Inl)
  next
    case (Inr s1)
    show ?thesis
    proof (cases "0 < reward s1")
      case True
      then have "spin_loop_upto n rnd srt bid idle s1 = Some y" using Suc.prems Inr by simp
      from Suc.IH[OF this] show ?thesis using Inr True by (subst spin_loop.simps) simp
    next
      case False
      then have "y = Inr s1" using Suc.prems Inr by simp
      then show ?thesis using False by (subst spin_loop.simps) (simp add: Inr)
    qed
  qed
qed

lemma spin_loop_complete:
  assumes "spin_loop rnd srt bid idle s = Some y"
  shows "\<exists>n. spin_loop_upto n rnd srt bid idle s = Some y"
proof (rule spin_loop.raw_induct[where
      P = "\<lambda>rnd srt bid idle s y. \<exists>n. spin_loop_upto n rnd srt bid idle s = Some y", OF _ assms])
  fix loop :: "(nat \<Rightarrow> rat) \<Rightarrow> ((int \<times> rat) list \<Rightarrow> (int \<times> rat) list) \<Rightarrow> int \<Rightarrow> bool \<Rightarrow> frame \<Rightarrow>
     (error + frame) option"
  fix rnd srt bid idle s y
  assume ih: "\<And>rnd srt bid idle s y. loop rnd srt bid idle s = Some y \<Longrightarrow>
               \<exists>n. spin_loop_upto n rnd srt bid idle s = Some y"
    and body: "(case round_body rnd srt bid idle s of
                  Inl e \<Rightarrow> Some (Inl e)
                | Inr s' \<Rightarrow> if 0 < reward s' then loop rnd srt bid idle s' else Some (Inr s')) = Some y"
  show "\<exists>n. spin_loop_upto n rnd srt bid idle s = Some y"
  proof (cases "round_body rnd srt bid idle s")
    case (Inl e)
    then have "y = Inl e" using body by simp
    then have "spin_loop_upto (Suc 0) rnd srt bid idle s = Some y" by (simp add: Inl)
    then show ?thesis by blast
  next
    case (Inr s1)
    show ?thesis
    proof (cases "0 < reward s1")
      case True
      then have "loop rnd srt bid idle s1 = Some y" using body Inr by simp
      from ih[OF this] obtain n where "spin_loop_upto n rnd srt bid idle s1 = Some y" by blast
      then have "spin_loop_upto (Suc n) rnd srt bid idle s = Some y" using Inr True by simp
      then show ?thesis by blast
    next
      case False
      then have "y = Inr s1" using body Inr by simp
      then have "spin_loop_upto (Suc 0) rnd srt bid idle s = Some y" using False by (simp add: Inr)
      then show ?thesis by blast
    qed
  qed
qed

lemma spin_loop_upto_invariant:
  assumes step: "\<And>a b. I a \<Longrightarrow> round_body rnd srt bid idle a = Inr b \<Longrightarrow> I b"
  shows "spin_loop_upto n rnd srt bid idle s = Some (Inr s') \<Longrightarrow> I s \<Longrightarrow> I s'"
proof (induction n arbitrary: s)
  case 0
  then show ?case by simp
next
  case (Suc n)
  show ?case
  proof (cases "round_body rnd srt bid idle s")
    case (Inl e)
    then show ?thesis using Suc.prems by simp
  next
    case (Inr s1)
    have i1: "I s1" by (rule step[OF Suc.prems(2) Inr])
    show ?thesis
    proof (cases "0 < reward s1")
      case True
      then have "spin_loop_upto n rnd srt bid idle s1 = Some (Inr s')" using Suc.prems Inr by simp
      from Suc.IH[OF this i1] show ?thesis .
    next
      case False
      then show ?thesis using Suc.prems Inr i1 by simp
    qed
  qed
qed

lemma spin_loop_invariant:
  assumes "spin_loop rnd srt bid idle s = Some (Inr s')" and "I s"
    and step: "\<And>a b. I a \<Longrightarrow> round_body rnd srt bid idle a = Inr b \<Longrightarrow> I b"
  shows "I s'"
proof -
  from spin_loop_complete[OF assms(1)] obtain n where
    "spin_loop_upto n rnd srt bid idle s = Some (Inr s')" by blast
  from spin_loop_upto_invariant[where I = I, OF step this assms(2)] show ?thesis .
qed

lemma spin_loop_rule:
  assumes "spin_loop rnd srt bid idle s = Some (Inr s')"
    and first: "\<And>b. round_body rnd srt bid idle s = Inr b \<Longrightarrow> I b"
    and step: "\<And>a b. I a \<Longrightarrow> round_body rnd srt bid idle a = Inr b \<Longrightarrow> I b"
  shows "I s'"
proof (cases "round_body rnd srt bid idle s")
  case (Inl e)
  then show ?thesis using assms(1) by (subst (asm) spin_loop.simps) simp
next
  case (Inr s1)
  have i1: "I s1" by (rule first[OF Inr])
  show ?thesis
  proof (cases "0 < reward s1")
    case True
    then have "spin_loop rnd srt bid idle s1 = Some (Inr s')"
      using assms(1) Inr by (subst (asm) spin_loop.simps) simp
    from spin_loop_invariant[where I = I, OF this i1 step] show ?thesis .
  next
    case False
    then have "s' = s1" using assms(1) Inr by (subst (asm) spin_loop.simps) simp
    then show ?thesis using i1 by simp
  qed
qed

lemma spin_ids:
  assumes "spin rnd srt bid gs c = Some (Inr (rs, gs', c'))"
  shows "map r_id rs = map (\<lambda>k. index gs + 1 + int k) [0..<length rs] \<and>
         index gs' = index gs + int (length rs)"
proof -
  let ?idle = "bid \<le> 0 \<or> bid > balance gs"
  from assms obtain s' where
    l: "spin_loop rnd srt bid ?idle (spin_start bid gs c) = Some (Inr s')"
    and f: "spin_finish ?idle s' = (rs, gs', c')"
    by (auto simp: spin_def Let_def split: option.splits sum.splits)
  have "ids_from (index gs) (spin_start bid gs c)" by (simp add: ids_from_def spin_start_def)
  from spin_loop_invariant[where I = "ids_from (index gs)", OF l this round_body_ids_from]
  have "ids_from (index gs) s'" .
  moreover have "rs = rounds s'" "index gs' = index (this s')"
    using f by (auto simp: spin_finish_def Let_def split: if_splits)
  ultimately show ?thesis by (simp add: ids_from_def)
qed

lemma ids_append:
  assumes "xs = map (\<lambda>k. b + 1 + int k) [0..<n]"
    and "ys = map (\<lambda>k. (b + int n) + 1 + int k) [0..<m]"
  shows "xs @ ys = map (\<lambda>k. b + 1 + int k) [0..<n + m]"
proof (rule nth_equalityI)
  show "length (xs @ ys) = length (map (\<lambda>k. b + 1 + int k) [0..<n + m])"
    using assms by simp
next
  fix i assume "i < length (xs @ ys)"
  then have i: "i < n + m" using assms by simp
  show "(xs @ ys) ! i = map (\<lambda>k. b + 1 + int k) [0..<n + m] ! i"
  proof (cases "i < n")
    case True
    then show ?thesis using assms(1) i by (simp add: nth_append)
  next
    case False
    then have "(xs @ ys) ! i = ys ! (i - n)" using assms(1) by (simp add: nth_append)
    also have "\<dots> = (b + int n) + 1 + int (i - n)" using assms(2) i False by simp
    also have "\<dots> = b + 1 + int i" using False by simp
    finally show ?thesis using i by simp
  qed
qed

lemma session_ids:
  assumes "session rnd srt bids gs c = Some (results, gs', c')"
  shows "map r_id (concat results) = map (\<lambda>k. index gs + 1 + int k) [0..<length (concat results)] \<and>
         index gs' = index gs + int (length (concat results))"
  using assms
proof (induction bids arbitrary: gs c results)
  case Nil
  then show ?case by simp
next
  case (Cons bid bids)
  from Cons.prems obtain rs g1 c1 rest where
    sp: "spin rnd srt bid gs c = Some (Inr (rs, g1, c1))"
    and se: "session rnd srt bids g1 c1 = Some (rest, gs', c')"
    and res: "results = rs # rest"
    by (auto split: option.splits sum.splits prod.splits)
  from spin_ids[OF sp] have a:
    "map r_id rs = map (\<lambda>k. index gs + 1 + int k) [0..<length rs]"
    "index g1 = index gs + int (length rs)" by simp_all
  from Cons.IH[OF se] have b:
    "map r_id (concat rest) = map (\<lambda>k. (index gs + int (length rs)) + 1 + int k) [0..<length (concat rest)]"
    "index gs' = index g1 + int (length (concat rest))" unfolding a(2) by simp_all
  have "map r_id rs @ map r_id (concat rest) =
          map (\<lambda>k. index gs + 1 + int k) [0..<length rs + length (concat rest)]"
    by (rule ids_append[OF a(1) b(1)])
  then have "map r_id (concat results) =
          map (\<lambda>k. index gs + 1 + int k) [0..<length (concat results)]"
    by (simp only: res concat.simps map_append length_append)
  moreover have "index gs' = index gs + int (length (concat results))"
    using a(2) b(2) by (simp add: res)
  ultimately show ?case by (rule conjI)
qed

lemma spin_iff_upto:
  "spin rnd srt bid gs c = Some out \<longleftrightarrow> (\<exists>n. spin_upto n rnd srt bid gs c = Some out)"
proof
  assume a: "spin rnd srt bid gs c = Some out"
  let ?idle = "bid \<le> 0 \<or> bid > balance gs"
  from a obtain y where y: "spin_loop rnd srt bid ?idle (spin_start bid gs c) = Some y"
    by (auto simp: spin_def Let_def split: option.splits)
  from spin_loop_complete[OF y] obtain n where
    n: "spin_loop_upto n rnd srt bid ?idle (spin_start bid gs c) = Some y" by blast
  have "spin_upto n rnd srt bid gs c = spin rnd srt bid gs c"
    using y n by (simp add: spin_def spin_upto_def Let_def)
  then show "\<exists>n. spin_upto n rnd srt bid gs c = Some out" using a by auto
next
  assume "\<exists>n. spin_upto n rnd srt bid gs c = Some out"
  then obtain n where n: "spin_upto n rnd srt bid gs c = Some out" by blast
  let ?idle = "bid \<le> 0 \<or> bid > balance gs"
  from n obtain y where y: "spin_loop_upto n rnd srt bid ?idle (spin_start bid gs c) = Some y"
    by (auto simp: spin_upto_def Let_def split: option.splits)
  from spin_loop_upto_sound[OF y] have "spin rnd srt bid gs c = spin_upto n rnd srt bid gs c"
    using y by (simp add: spin_def spin_upto_def Let_def)
  then show "spin rnd srt bid gs c = Some out" using n by simp
qed

lemma spin_upto_sound:
  "spin_upto n rnd srt bid gs c = Some out \<Longrightarrow> spin rnd srt bid gs c = Some out"
  using spin_iff_upto by blast

lemma session_upto_sound:
  "session_upto n rnd srt bids gs c = Some x \<Longrightarrow> session rnd srt bids gs c = Some x"
proof (induction bids arbitrary: gs c x)
  case Nil
  then show ?case by simp
next
  case (Cons bid bids)
  from Cons.prems obtain rs g1 c1 rest where
    sp: "spin_upto n rnd srt bid gs c = Some (Inr (rs, g1, c1))"
    and se: "session_upto n rnd srt bids g1 c1 = Some rest"
    by (auto split: option.splits sum.splits prod.splits)
  have "spin rnd srt bid gs c = Some (Inr (rs, g1, c1))" by (rule spin_upto_sound[OF sp])
  moreover have "session rnd srt bids g1 c1 = Some rest" by (rule Cons.IH[OF se])
  ultimately show ?case using Cons.prems sp se by simp
qed

text \<open>
  C8. Round ids only go up and are never handed out twice: over any number of successive
  calls of \<open>spin\<close> on one engine, the ids of all rounds in the order they were made are
  strictly increasing (so are those within each result), and all lie above the engine's
  counter before the first call.
\<close>

theorem round_ids_strictly_increase:
  assumes "session rnd srt bids gs c = Some (results, gs', c')"
  shows "sorted_wrt (<) (map r_id (concat results)) \<and>
         (\<forall>r\<in>set (concat results). index gs < r_id r) \<and>
         (\<forall>rs\<in>set results. sorted_wrt (<) (map r_id rs))"
proof -
  from session_ids[OF assms] have
    e: "map r_id (concat results) = map (\<lambda>k. index gs + 1 + int k) [0..<length (concat results)]"
    by simp
  have s: "sorted_wrt (<) (map r_id (concat results))"
    unfolding e by (simp add: sorted_wrt_map)
  have g: "\<forall>r\<in>set (concat results). index gs < r_id r"
  proof
    fix r assume "r \<in> set (concat results)"
    then have "r_id r \<in> set (map r_id (concat results))" by (simp only: set_map) (rule imageI)
    then have "r_id r \<in> set (map (\<lambda>k. index gs + 1 + int k) [0..<length (concat results)])"
      by (simp only: e)
    then obtain k where "r_id r = index gs + 1 + int k" by (auto simp only: set_map)
    then show "index gs < r_id r" by simp
  qed
  have "sorted_wrt (<) (map r_id rs)" if "rs \<in> set results" for rs
  proof -
    from that obtain pre post where "results = pre @ rs # post" by (meson split_list)
    then have "map r_id (concat results) = map r_id (concat pre) @ map r_id rs @ map r_id (concat post)"
      by simp
    then show ?thesis using s by (simp add: sorted_wrt_append)
  qed
  then show ?thesis using s g by blast
qed


theorem round_ids_strictly_increase_witness:
  "\<exists>results gs' c'.
     session spread_source id [1, 200] \<lparr>balance = 100, index = 7, fails = 0\<rparr> 0 =
       Some (results, gs', c') \<and>
     sorted_wrt (<) (map r_id (concat results)) \<and>
     (\<forall>r\<in>set (concat results). index \<lparr>balance = 100, index = 7, fails = 0\<rparr> < r_id r)"
proof -
  have "session_upto 1 spread_source id [1, 200] \<lparr>balance = 100, index = 7, fails = 0\<rparr> 0 \<noteq> None"
    by code_simp
  then obtain results gs' c' where
    "session_upto 1 spread_source id [1, 200] \<lparr>balance = 100, index = 7, fails = 0\<rparr> 0 =
          Some (results, gs', c')"
    by auto
  then have s: "session spread_source id [1, 200] \<lparr>balance = 100, index = 7, fails = 0\<rparr> 0 =
          Some (results, gs', c')"
    by (rule session_upto_sound)
  from round_ids_strictly_increase[OF s] s show ?thesis by blast
qed

subsection \<open>Termination of spin\<close>

lemma fill_all_nines:
  "map (\<lambda>(n, item). let random = steady_source (9 / 10) (c + n) in
          case item of None \<Rightarrow> findIndex (\<lambda>v. random \<le> v) itemsRanges | Some v \<Rightarrow> v)
     (enumerate 0 (replicate 30 None)) = replicate 30 9"
proof -
  have f: "findIndex (\<lambda>v. (9 / 10 :: rat) \<le> v) itemsRanges = 9"
    by (simp add: findIndex_def itemsRanges_def binary64_def)
  have "map (\<lambda>(n, item). let random = steady_source (9 / 10) (c + n) in
          case item of None \<Rightarrow> findIndex (\<lambda>v. random \<le> v) itemsRanges | Some v \<Rightarrow> v)
     (enumerate 0 (replicate 30 None)) ! i = replicate 30 9 ! i" if "i < 30" for i
    using that by (simp add: nth_enumerate_eq steady_source_def f)
  then show ?thesis by (intro nth_equalityI) simp_all
qed

lemma nines_round:
  "findCombinations (groupItems (replicate 30 9)) = Inr [(9, 10)]"
  "snd (moveItems (replicate 30 9) (blowItems (replicate 30 9) [(9, 10)])) = replicate 30 None"
  by code_simp+

lemma fill_step_nines:
  assumes "items s = replicate 30 None" "fails (this s) \<le> 3"
  shows "fill_step (steady_source (9 / 10)) srt False s =
           Inr (replicate 30 9, replicate 30 None, (this s)\<lparr>index := index (this s) + 1\<rparr>,
                calls s + 30)"
proof -
  have "\<not> 3 < fails ((this s)\<lparr>index := index (this s) + 1\<rparr>)" using assms(2) by simp
  from fillItems_plain[OF this, of "steady_source (9 / 10)" "calls s" "replicate 30 None"]
  show ?thesis unfolding fill_all_nines by (simp add: fill_step_def assms(1))
qed

lemma round_body_nines:
  assumes "items s = replicate 30 None" "fails (this s) \<le> 3"
  shows "\<exists>s'. round_body (steady_source (9 / 10)) srt 1 False s = Inr s' \<and> reward s' = 10 \<and>
           items s' = replicate 30 None \<and> fails (this s') \<le> 3"
  using assms(2)
  by (simp add: round_body_unfold fill_step_nines[OF assms] nines_round calculateReward_def)

lemma spin_loop_upto_nines:
  "items s = replicate 30 None \<Longrightarrow> fails (this s) \<le> 3 \<Longrightarrow>
     spin_loop_upto n (steady_source (9 / 10)) srt 1 False s = None"
proof (induction n arbitrary: s)
  case 0
  then show ?case by simp
next
  case (Suc n)
  from round_body_nines[OF Suc.prems, of srt] obtain s' where
    s': "round_body (steady_source (9 / 10)) srt 1 False s = Inr s'" "reward s' = 10"
        "items s' = replicate 30 None" "fails (this s') \<le> 3" by blast
  from Suc.IH[OF s'(3,4)] show ?case using s'(1,2) by simp
qed

lemma spin_loop_nines:
  assumes "items s = replicate 30 None" "fails (this s) \<le> 3"
  shows "spin_loop (steady_source (9 / 10)) srt 1 False s = None"
proof (cases "spin_loop (steady_source (9 / 10)) srt 1 False s")
  case None
  then show ?thesis .
next
  case (Some y)
  from spin_loop_complete[OF Some] obtain n where
    "spin_loop_upto n (steady_source (9 / 10)) srt 1 False s = Some y" by blast
  then show ?thesis using spin_loop_upto_nines[OF assms, of n srt] by simp
qed

text \<open>
  C2, as claimed: for every bid and every engine state \<open>spin\<close> returns, a safety cap
  bounding the loop. The loop has no cap. With a random source that always draws 0.9
  every board is all of kind 9, every round pays, and \<open>spin\<close> called with the valid bid 1
  never returns.
\<close>

theorem spin_never_returns:
  "spin (steady_source (9 / 10)) id 1 \<lparr>balance = 1, index = 0, fails = 0\<rparr> 0 = None"
proof -
  have "spin_loop (steady_source (9 / 10)) id 1 False
          (spin_start 1 \<lparr>balance = 1, index = 0, fails = 0\<rparr> 0) = None"
    by (rule spin_loop_nines) (simp_all add: spin_start_def)
  then show ?thesis by (simp add: spin_def)
qed


text \<open>
  C2, amended: \<open>spin\<close> returns exactly when its loop ends after some finite number of
  rounds, that is when a round has a reward that is not positive (or throws), and it then
  returns what the loop cut off at that number returns; nothing bounds the number. For a
  bid with \<open>bid \<le> 0\<close> or \<open>bid > balance\<close> one round is always enough.
\<close>

theorem spin_returns_iff_loop_ends:
  "(spin rnd srt bid gs c = Some out \<longleftrightarrow> (\<exists>n. spin_upto n rnd srt bid gs c = Some out)) \<and>
   (sort_ok srt \<and> (bid \<le> 0 \<or> bid > balance gs) \<longrightarrow>
      (\<exists>r gs' c'. spin_upto 1 rnd srt bid gs c = Some (Inr ([r], gs', c'))))"
proof -
  have "\<exists>r gs' c'. spin_upto 1 rnd srt bid gs c = Some (Inr ([r], gs', c'))"
    if so: "sort_ok srt" and idle: "bid \<le> 0 \<or> bid > balance gs"
  proof -
    from round_body_idle[OF so, of rnd bid "spin_start bid gs c"] obtain s' where
      s': "round_body rnd srt bid True (spin_start bid gs c) = Inr s'" "reward s' = 0"
          "\<exists>r. rounds s' = [r]"
      by (auto simp: spin_start_def alias_write_def)
    then obtain r where r: "rounds s' = [r]" by blast
    have "spin_upto 1 rnd srt bid gs c = Some (Inr (spin_finish True s'))"
      using idle s' by (simp add: spin_upto_def)
    then show ?thesis using r by (simp add: spin_finish_def Let_def)
  qed
  then show ?thesis using spin_iff_upto by blast
qed

theorem spin_returns_iff_loop_ends_witness:
  "sort_ok id \<and> ((200::int) \<le> 0 \<or> 200 > balance \<lparr>balance = 100, index = 0, fails = 0\<rparr>) \<and>
   (\<exists>r gs' c'. spin_upto 1 (steady_source (1 / 2)) id 200 \<lparr>balance = 100, index = 0, fails = 0\<rparr> 0 =
       Some (Inr ([r], gs', c')))"
proof -
  have s: "sort_ok id" by (simp add: sort_ok_def)
  have b: "(200::int) \<le> 0 \<or> 200 > balance \<lparr>balance = 100, index = 0, fails = 0\<rparr>" by simp
  from spin_returns_iff_loop_ends[of "steady_source (1 / 2)" id 200
      "\<lparr>balance = 100, index = 0, fails = 0\<rparr>" 0] s b
  show ?thesis by blast
qed


subsection \<open>The pity counter\<close>

lemma fillItems_fails:
  "fillItems rnd c gs b = Inr (shown, w, gs', c') \<Longrightarrow> fails gs' = (if 3 < fails gs then 0 else fails gs)"
  by (auto simp: fillItems_def split: if_splits sum.splits prod.splits)

lemma fill_step_fails:
  "fill_step rnd srt idle s = Inr (shown, w, gs2, c) \<Longrightarrow> fails gs2 = after_fill idle (fails (this s))"
  using fillItems_fails[of rnd "calls s" "(this s)\<lparr>index := index (this s) + 1\<rparr>" "items s" shown w gs2 c]
  by (cases idle) (auto simp: fill_step_def after_fill_def)

lemma round_body_fails:
  assumes "round_body rnd srt bid idle s = Inr s'"
  shows "fails (this s') = after_fill idle (fails (this s))"
proof -
  from assms obtain shown written gs2 c math where
    f: "fill_step rnd srt idle s = Inr (shown, written, gs2, c)" and s': "this s' = gs2"
    by (rule round_body_cases) simp
  show ?thesis using fill_step_fails[OF f] s' by simp
qed

lemma after_fill_idem: "after_fill idle (after_fill idle f) = after_fill idle f"
  by (simp add: after_fill_def)

lemma spin_loop_fails:
  assumes "spin_loop rnd srt bid idle s = Some (Inr s')"
  shows "fails (this s') = after_fill idle (fails (this s))"
proof (rule spin_loop_rule[where I = "\<lambda>b. fails (this b) = after_fill idle (fails (this s))", OF assms])
  fix b assume "round_body rnd srt bid idle s = Inr b"
  then show "fails (this b) = after_fill idle (fails (this s))" by (rule round_body_fails)
next
  fix a b assume "fails (this a) = after_fill idle (fails (this s))"
    and "round_body rnd srt bid idle a = Inr b"
  then show "fails (this b) = after_fill idle (fails (this s))"
    using round_body_fails[of rnd srt bid idle a b] by (simp add: after_fill_idem)
qed

lemma spin_parts:
  assumes "spin rnd srt bid gs c = Some (Inr (rs, gs', c'))"
  obtains s' where
    "spin_loop rnd srt bid (bid \<le> 0 \<or> bid > balance gs) (spin_start bid gs c) = Some (Inr s')"
    "rs = rounds s'"
    "fails gs' = (if length (rounds s') = 1 then fails (this s') + 1 else 0)"
proof -
  let ?idle = "bid \<le> 0 \<or> bid > balance gs"
  from assms obtain s' where
    l: "spin_loop rnd srt bid ?idle (spin_start bid gs c) = Some (Inr s')"
    and f: "spin_finish ?idle s' = (rs, gs', c')"
    by (auto simp: spin_def Let_def split: option.splits sum.splits)
  have "rs = rounds s'" "fails gs' = (if length (rounds s') = 1 then fails (this s') + 1 else 0)"
    using f by (auto simp: spin_finish_def Let_def split: if_splits)
  with l show ?thesis using that by blast
qed

lemma spin_fails:
  assumes "spin rnd srt bid gs c = Some (Inr (rs, gs', c'))"
  shows "fails gs' =
     (if length rs = 1 then after_fill (bid \<le> 0 \<or> bid > balance gs) (fails gs) + 1 else 0)"
proof -
  from assms obtain s' where
    l: "spin_loop rnd srt bid (bid \<le> 0 \<or> bid > balance gs) (spin_start bid gs c) = Some (Inr s')"
    and r: "rs = rounds s'" "fails gs' = (if length (rounds s') = 1 then fails (this s') + 1 else 0)"
    by (rule spin_parts)
  from spin_loop_fails[OF l] r show ?thesis by (simp add: spin_start_def)
qed

lemma session_fails:
  assumes "session rnd srt bids gs c = Some (results, gs', c')"
    and "\<forall>rs\<in>set results. length rs = 1"
    and "fails gs + int (length bids) \<le> 4"
  shows "fails gs' = fails gs + int (length bids)"
  using assms
proof (induction bids arbitrary: gs c results)
  case Nil
  then show ?case by simp
next
  case (Cons bid bids)
  from Cons.prems(1) obtain rs g1 c1 rest where
    sp: "spin rnd srt bid gs c = Some (Inr (rs, g1, c1))"
    and se: "session rnd srt bids g1 c1 = Some (rest, gs', c')"
    and res: "results = rs # rest"
    by (auto split: option.splits sum.splits prod.splits)
  have len: "length rs = 1" "\<forall>rs\<in>set rest. length rs = 1" using Cons.prems(2) res by simp_all
  have "fails gs \<le> 3" using Cons.prems(3) by simp
  then have g1: "fails g1 = fails gs + 1" using spin_fails[OF sp] len(1) by (simp add: after_fill_def)
  then have "fails g1 + int (length bids) \<le> 4" using Cons.prems(3) by simp
  from Cons.IH[OF se len(2) this] g1 show ?case by simp
qed

lemma alias_write_shows: "map r_show (alias_write rs w) = map r_show rs"
proof (cases rs rule: rev_cases)
  case Nil
  then show ?thesis by (simp add: alias_write_def)
next
  case (snoc ys y)
  then show ?thesis by (simp add: alias_write_def)
qed

lemma round_body_shows:
  assumes "round_body rnd srt bid idle s = Inr s'"
  obtains shown written gs2 c where
    "fill_step rnd srt idle s = Inr (shown, written, gs2, c)"
    "map r_show (rounds s') = map r_show (rounds s) @ [shown]"
proof -
  from assms obtain shown written gs2 c math where
    f: "fill_step rnd srt idle s = Inr (shown, written, gs2, c)"
    and s': "map r_show (rounds s') = map r_show (alias_write (rounds s) written) @ [shown]"
    by (rule round_body_cases) simp
  show ?thesis using that[OF f] s' by (simp add: alias_write_shows)
qed

lemma spin_first_board:
  assumes "spin rnd srt bid gs c = Some (Inr (rs, gs', c'))"
  shows "\<exists>written gs2 c2.
           fill_step rnd srt (bid \<le> 0 \<or> bid > balance gs) (spin_start bid gs c) =
             Inr (r_show (hd rs), written, gs2, c2)"
proof -
  let ?idle = "bid \<le> 0 \<or> bid > balance gs"
  let ?s0 = "spin_start bid gs c"
  from assms obtain s' where
    l: "spin_loop rnd srt bid ?idle ?s0 = Some (Inr s')" and r: "rs = rounds s'"
    by (rule spin_parts)
  let ?I = "\<lambda>b :: frame. \<exists>written gs2 c2.
              fill_step rnd srt ?idle ?s0 = Inr (hd (map r_show (rounds b)), written, gs2, c2) \<and>
              rounds b \<noteq> []"
  have "?I s'"
  proof (rule spin_loop_rule[where I = ?I, OF l])
    fix b assume "round_body rnd srt bid ?idle ?s0 = Inr b"
    then obtain shown written gs2 c2 where
      "fill_step rnd srt ?idle ?s0 = Inr (shown, written, gs2, c2)"
      "map r_show (rounds b) = map r_show (rounds ?s0) @ [shown]"
      by (rule round_body_shows)
    then show "?I b" by (auto simp: spin_start_def)
  next
    fix a b assume a: "?I a" and rb: "round_body rnd srt bid ?idle a = Inr b"
    from rb obtain shown where
      "map r_show (rounds b) = map r_show (rounds a) @ [shown]"
      by (rule round_body_shows)
    then have "hd (map r_show (rounds b)) = hd (map r_show (rounds a))" "rounds b \<noteq> []"
      using a by auto
    then show "?I b" using a by auto
  qed
  then show ?thesis unfolding r by (auto simp: hd_map)
qed


lemma draws_ok_spread: "draws_ok spread_source"
proof -
  have "0 \<le> spread_source n \<and> spread_source n < 1" for n
  proof -
    have "n mod 10 = 0 \<or> n mod 10 = 1 \<or> n mod 10 = 2 \<or> n mod 10 = 3 \<or> n mod 10 = 4 \<or>
          n mod 10 = 5 \<or> n mod 10 = 6 \<or> n mod 10 = 7 \<or> n mod 10 = 8 \<or> n mod 10 = 9"
      by presburger
    then show ?thesis unfolding spread_source_def by (elim disjE) simp_all
  qed
  then show ?thesis by (simp add: draws_ok_def)
qed

lemma spin_report_elim:
  assumes "Option.bind (spin_upto n rnd srt bid gs c) spin_report = Some (k, gs', c', b)"
  shows "\<exists>rs. spin rnd srt bid gs c = Some (Inr (rs, gs', c')) \<and> length rs = k \<and> r_show (hd rs) = b"
proof (cases "spin_upto n rnd srt bid gs c")
  case None
  then show ?thesis using assms by simp
next
  case (Some out)
  show ?thesis
  proof (cases out)
    case (Inl e)
    then show ?thesis using assms Some by (simp add: spin_report_def)
  next
    case (Inr q)
    obtain rs g1 c1 where q: "q = (rs, g1, c1)" by (cases q)
    have "g1 = gs'" "c1 = c'" "length rs = k" "r_show (hd rs) = b"
      using assms Some Inr q by (simp_all add: spin_report_def)
    moreover have "spin rnd srt bid gs c = Some (Inr (rs, g1, c1))"
      using Some Inr q by (intro spin_upto_sound[of n]) simp
    ultimately show ?thesis by blast
  qed
qed

lemma four_valid_spins:
  "Option.bind (spin_upto 1 spread_source id 1 \<lparr>balance = 4, index = 0, fails = 0\<rparr> 0) spin_report =
     Some (1, \<lparr>balance = 3, index = 1, fails = 1\<rparr>, 30, fst (fakeItems spread_source id 0))"
  "Option.bind (spin_upto 1 spread_source id 1 \<lparr>balance = 3, index = 1, fails = 1\<rparr> 30) spin_report =
     Some (1, \<lparr>balance = 2, index = 2, fails = 2\<rparr>, 60, fst (fakeItems spread_source id 0))"
  "Option.bind (spin_upto 1 spread_source id 1 \<lparr>balance = 2, index = 2, fails = 2\<rparr> 60) spin_report =
     Some (1, \<lparr>balance = 1, index = 3, fails = 3\<rparr>, 90, fst (fakeItems spread_source id 0))"
  "Option.bind (spin_upto 1 spread_source id 1 \<lparr>balance = 1, index = 3, fails = 3\<rparr> 90) spin_report =
     Some (1, \<lparr>balance = 0, index = 4, fails = 4\<rparr>, 120, fst (fakeItems spread_source id 0))"
  by code_simp+

lemma fifth_spin_idle:
  "Option.bind (spin_upto 1 spread_source id 1 \<lparr>balance = 0, index = 4, fails = 4\<rparr> 120) spin_report =
     Some (1, \<lparr>balance = 0, index = 5, fails = 5\<rparr>, 150, fst (fakeItems spread_source id 120))"
  by code_simp

text \<open>
  C4, as claimed: after 4 consecutive spins of one round each, the fill step of the 5th
  spin applies a showcase placement and resets the counter. Here an engine with balance
  4 and counter 0 takes five spins of bid 1, none of which matches anything. The first
  four are wagers of one round each and leave balance 0 and counter 4. The fifth bid
  exceeds the balance, so the fifth spin is idle: its board is the demo fill, it draws 30
  numbers like the others (150 in all, none for a showcase), and the counter ends at 5.
\<close>

theorem pity_counter_idle_fifth_spin:
  "map_option pity_report
     (session spread_source id [1, 1, 1, 1, 1] \<lparr>balance = 4, index = 0, fails = 0\<rparr> 0) =
     Some ([1, 1, 1, 1, 1], 5, fst (fakeItems spread_source id 120), 150)"
proof -
  from spin_report_elim[OF four_valid_spins(1)] obtain rs1 where
    s1: "spin spread_source id 1 \<lparr>balance = 4, index = 0, fails = 0\<rparr> 0 =
           Some (Inr (rs1, \<lparr>balance = 3, index = 1, fails = 1\<rparr>, 30))" "length rs1 = 1" by blast
  from spin_report_elim[OF four_valid_spins(2)] obtain rs2 where
    s2: "spin spread_source id 1 \<lparr>balance = 3, index = 1, fails = 1\<rparr> 30 =
           Some (Inr (rs2, \<lparr>balance = 2, index = 2, fails = 2\<rparr>, 60))" "length rs2 = 1" by blast
  from spin_report_elim[OF four_valid_spins(3)] obtain rs3 where
    s3: "spin spread_source id 1 \<lparr>balance = 2, index = 2, fails = 2\<rparr> 60 =
           Some (Inr (rs3, \<lparr>balance = 1, index = 3, fails = 3\<rparr>, 90))" "length rs3 = 1" by blast
  from spin_report_elim[OF four_valid_spins(4)] obtain rs4 where
    s4: "spin spread_source id 1 \<lparr>balance = 1, index = 3, fails = 3\<rparr> 90 =
           Some (Inr (rs4, \<lparr>balance = 0, index = 4, fails = 4\<rparr>, 120))" "length rs4 = 1" by blast
  from spin_report_elim[OF fifth_spin_idle] obtain rs5 where
    s5: "spin spread_source id 1 \<lparr>balance = 0, index = 4, fails = 4\<rparr> 120 =
           Some (Inr (rs5, \<lparr>balance = 0, index = 5, fails = 5\<rparr>, 150))" "length rs5 = 1"
        "r_show (hd rs5) = fst (fakeItems spread_source id 120)" by blast
  have "session spread_source id [1, 1, 1, 1, 1] \<lparr>balance = 4, index = 0, fails = 0\<rparr> 0 =
          Some ([rs1, rs2, rs3, rs4, rs5], \<lparr>balance = 0, index = 5, fails = 5\<rparr>, 150)"
    by (simp add: s1(1) s2(1) s3(1) s4(1) s5(1))
  then show ?thesis using s1(2) s2(2) s3(2) s4(2) s5(2,3) by (simp add: pity_report_def)
qed

lemma fillItems_weighted:
  "\<not> 3 < fails gs \<Longrightarrow>
     fillItems rnd c gs its = Inr (weighted_fill rnd c its, its, gs, c + length its)"
  "3 < fails gs \<Longrightarrow> showcase rnd c its = Inr (a, c1) \<Longrightarrow>
     fillItems rnd c gs its = Inr (weighted_fill rnd c1 a, a, gs\<lparr>fails := 0\<rparr>, c1 + length a)"
  by (simp_all add: fillItems_def weighted_fill_def)

lemma showcase_fold_written:
  assumes "draws_ok rnd" "length a = 30"
  shows "length (fold (\<lambda>n a. let i = Math_round (rnd (c + 1 + n) * 29) in
                          if 0 \<le> i then js_set a (nat i) (Some t) else a) ns a) = 30 \<and>
         (\<forall>i<30. fold (\<lambda>n a. let i = Math_round (rnd (c + 1 + n) * 29) in
                          if 0 \<le> i then js_set a (nat i) (Some t) else a) ns a ! i =
            (if i \<in> (\<lambda>k. nat (Math_round (rnd (c + 1 + k) * 29))) ` set ns then Some t
             else a ! i))"
  using assms(2)
proof (induction ns arbitrary: a)
  case Nil
  then show ?case by simp
next
  case (Cons n ns)
  let ?w = "nat (Math_round (rnd (c + 1 + n) * 29))"
  let ?a1 = "a[?w := Some t]"
  have b: "0 \<le> Math_round (rnd (c + 1 + n) * 29)" "?w < 30"
    using Math_round_scaled[of "rnd (c + 1 + n)" 29] assms(1) by (auto simp: draws_ok_def)
  have step: "(let i = Math_round (rnd (c + 1 + n) * 29) in
               if 0 \<le> i then js_set a (nat i) (Some t) else a) = ?a1"
    using b Cons.prems by (simp add: js_set_def Let_def)
  have l1: "length ?a1 = 30" using Cons.prems by simp
  have a1: "?a1 ! i = (if i = ?w then Some t else a ! i)" if "i < 30" for i
    using that Cons.prems by (simp add: nth_list_update)
  from Cons.IH[OF l1] a1 show ?case unfolding fold_simps step by auto
qed

lemma showcase_written:
  assumes "draws_ok rnd"
  shows "\<exists>t n W. (t, n) \<in> set showcaseCombinations \<and> W \<noteq> {} \<and> W \<subseteq> {0..<30} \<and> card W \<le> n \<and>
           showcase rnd c (replicate 30 None) =
             Inr (map (\<lambda>i. if i \<in> W then Some t else None) [0..<30], c + 1 + n)"
proof -
  let ?random = "Math_round (rnd c * of_int (int (length showcaseCombinations) - 1))"
  have "0 \<le> Math_round (rnd c * of_int 3) \<and> Math_round (rnd c * of_int 3) \<le> 3"
    by (rule Math_round_scaled) (use assms(1) in \<open>simp_all add: draws_ok_def\<close>)
  then have r: "0 \<le> ?random" "?random \<le> 3" by (simp_all add: showcaseCombinations_def)
  then have "?random = 0 \<or> ?random = 1 \<or> ?random = 2 \<or> ?random = 3" by presburger
  then obtain t n where tn: "showcaseCombinations ! nat ?random = (t, n)"
    "(t, n) \<in> set showcaseCombinations" "0 < n"
    by (auto simp: showcaseCombinations_def)
  let ?w = "\<lambda>k. nat (Math_round (rnd (c + 1 + k) * 29))"
  let ?W = "?w ` {0..<n}"
  let ?a = "fold (\<lambda>n a. let i = Math_round (rnd (c + 1 + n) * 29) in
                          if 0 \<le> i then js_set a (nat i) (Some t) else a) [0..<n]
              (replicate 30 None)"
  have sc: "showcase rnd c (replicate 30 None) = Inr (?a, c + 1 + n)"
    using r tn(1) unfolding showcase_def Let_def by (simp add: showcaseCombinations_def)
  from showcase_fold_written[OF assms, of "replicate 30 None" c t "[0..<n]"]
  have la: "length ?a = 30"
    and cells: "\<forall>i<30. ?a ! i = (if i \<in> ?W then Some t else None)"
    by simp_all
  have eq: "?a = map (\<lambda>i. if i \<in> ?W then Some t else None) [0..<30]"
    by (rule nth_equalityI) (use la cells in simp_all)
  have ne: "?W \<noteq> {}" using tn(3) by simp
  have sub: "?W \<subseteq> {0..<30}"
  proof
    fix i assume "i \<in> ?W"
    then obtain k where "i = ?w k" by blast
    then show "i \<in> {0..<30}"
      using Math_round_scaled[of "rnd (c + 1 + k)" 29] assms by (auto simp: draws_ok_def)
  qed
  have "card ?W \<le> card {0..<n}" by (rule card_image_le) simp
  then have cd: "card ?W \<le> n" by simp
  show ?thesis using tn(2) ne sub cd sc eq by (intro exI[of _ t] exI[of _ n] exI[of _ ?W]) simp
qed

text \<open>
  C4, amended: when \<open>spin\<close> returns, the counter is 0 if the result does not have exactly
  one round, and otherwise one more than it was after the first fill step: one more than
  before the call, except that a call with a valid bid (\<open>0 < bid \<le> balance\<close>) that found
  the counter above 3 leaves it at 1. The first board of the call is
  \<^item> for a valid bid and a counter above 3 (and draws in \<open>[0, 1)\<close>): a showcase placement,
    that is, for one of the fixed pairs (kind, count), the empty board with that kind
    written to at least one and at most count cells, then filled with the draws that
    follow the \<open>1 + count\<close> draws of the showcase;
  \<^item> for a valid bid and a counter of at most 3: the empty board filled with the next 30
    draws, with no showcase and no draw spent on one;
  \<^item> for \<open>bid \<le> 0\<close> or \<open>bid > balance\<close>: the demo fill, whatever the counter.
  From counter 0, four successive calls of one round each bring the counter to 4.
\<close>

theorem pity_counter_after_spin:
  "(spin rnd srt bid gs c = Some (Inr (rs, gs', c')) \<longrightarrow>
      fails gs' =
        (if length rs = 1
         then (if 0 < bid \<and> bid \<le> balance gs \<and> 3 < fails gs then 0 else fails gs) + 1
         else 0) \<and>
      (0 < bid \<and> bid \<le> balance gs \<and> 3 < fails gs \<and> draws_ok rnd \<longrightarrow>
         (\<exists>(t, n)\<in>set showcaseCombinations. \<exists>W. W \<noteq> {} \<and> W \<subseteq> {0..<30} \<and> card W \<le> n \<and>
            r_show (hd rs) =
              weighted_fill rnd (c + 1 + n) (map (\<lambda>i. if i \<in> W then Some t else None) [0..<30]))) \<and>
      (0 < bid \<and> bid \<le> balance gs \<and> fails gs \<le> 3 \<longrightarrow>
         r_show (hd rs) = weighted_fill rnd c (replicate 30 None)) \<and>
      (bid \<le> 0 \<or> balance gs < bid \<longrightarrow> r_show (hd rs) = fst (fakeItems rnd srt c))) \<and>
   (session rnd srt [b1, b2, b3, b4] gs c = Some (results, g4, c4) \<and>
      (\<forall>rs\<in>set results. length rs = 1) \<and> fails gs = 0 \<longrightarrow> fails g4 = 4)"
proof -
  have one: "fails gs' =
        (if length rs = 1
         then (if 0 < bid \<and> bid \<le> balance gs \<and> 3 < fails gs then 0 else fails gs) + 1
         else 0) \<and>
      (0 < bid \<and> bid \<le> balance gs \<and> 3 < fails gs \<and> draws_ok rnd \<longrightarrow>
         (\<exists>(t, n)\<in>set showcaseCombinations. \<exists>W. W \<noteq> {} \<and> W \<subseteq> {0..<30} \<and> card W \<le> n \<and>
            r_show (hd rs) =
              weighted_fill rnd (c + 1 + n) (map (\<lambda>i. if i \<in> W then Some t else None) [0..<30]))) \<and>
      (0 < bid \<and> bid \<le> balance gs \<and> fails gs \<le> 3 \<longrightarrow>
         r_show (hd rs) = weighted_fill rnd c (replicate 30 None)) \<and>
      (bid \<le> 0 \<or> balance gs < bid \<longrightarrow> r_show (hd rs) = fst (fakeItems rnd srt c))"
    if sp: "spin rnd srt bid gs c = Some (Inr (rs, gs', c'))"
  proof -
    have f: "fails gs' =
        (if length rs = 1
         then (if 0 < bid \<and> bid \<le> balance gs \<and> 3 < fails gs then 0 else fails gs) + 1
         else 0)"
      using spin_fails[OF sp] by (auto simp: after_fill_def)
    from spin_first_board[OF sp] obtain written gs2 c2 where
      fs: "fill_step rnd srt (bid \<le> 0 \<or> bid > balance gs) (spin_start bid gs c) =
             Inr (r_show (hd rs), written, gs2, c2)" by blast
    have sc: "\<exists>(t, n)\<in>set showcaseCombinations. \<exists>W. W \<noteq> {} \<and> W \<subseteq> {0..<30} \<and> card W \<le> n \<and>
            r_show (hd rs) =
              weighted_fill rnd (c + 1 + n) (map (\<lambda>i. if i \<in> W then Some t else None) [0..<30])"
      if v: "0 < bid \<and> bid \<le> balance gs \<and> 3 < fails gs \<and> draws_ok rnd"
    proof -
      from v have d: "draws_ok rnd" by simp
      from showcase_written[OF d, of c] obtain t n W where
        tn: "(t, n) \<in> set showcaseCombinations" "W \<noteq> {}" "W \<subseteq> {0..<30}" "card W \<le> n"
        and w: "showcase rnd c (replicate 30 None) =
                  Inr (map (\<lambda>i. if i \<in> W then Some t else None) [0..<30], c + 1 + n)"
        by blast
      have big: "3 < fails (gs\<lparr>index := index gs + 1\<rparr>)" using v by simp
      have "fillItems rnd c (gs\<lparr>index := index gs + 1\<rparr>) (replicate 30 None) =
              Inr (r_show (hd rs), written, gs2, c2)"
        using fs v by (simp add: fill_step_def spin_start_def)
      then have "r_show (hd rs) =
              weighted_fill rnd (c + 1 + n) (map (\<lambda>i. if i \<in> W then Some t else None) [0..<30])"
        unfolding fillItems_weighted(2)[OF big w] by auto
      then show ?thesis using tn by blast
    qed
    have plain: "r_show (hd rs) = weighted_fill rnd c (replicate 30 None)"
      if v: "0 < bid \<and> bid \<le> balance gs \<and> fails gs \<le> 3"
    proof -
      have small: "\<not> 3 < fails (gs\<lparr>index := index gs + 1\<rparr>)" using v by simp
      have "fillItems rnd c (gs\<lparr>index := index gs + 1\<rparr>) (replicate 30 None) =
              Inr (r_show (hd rs), written, gs2, c2)"
        using fs v by (simp add: fill_step_def spin_start_def)
      then show ?thesis unfolding fillItems_weighted(1)[OF small] by auto
    qed
    have demo: "r_show (hd rs) = fst (fakeItems rnd srt c)" if "bid \<le> 0 \<or> balance gs < bid"
      using fs that by (simp add: fill_step_def spin_start_def)
    show ?thesis using f sc plain demo by blast
  qed
  have four: "fails g4 = 4"
    if "session rnd srt [b1, b2, b3, b4] gs c = Some (results, g4, c4)"
       "\<forall>rs\<in>set results. length rs = 1" "fails gs = 0"
    using session_fails[OF that(1,2)] that(3) by simp
  show ?thesis using one four by blast
qed

lemma showcase_spin:
  "Option.bind (spin_upto 2 spread_source id 1 \<lparr>balance = 100, index = 0, fails = 4\<rparr> 0) spin_report =
     Some (2, \<lparr>balance = 299, index = 2, fails = 0\<rparr>, 65,
       [5, 0, 7, 0, 9, 0, 0, 2, 3, 4, 5, 6, 7, 8, 9, 0, 1, 2, 3, 4, 5, 6, 7, 8, 9, 0, 1, 2, 3, 4])"
  by code_simp

theorem pity_counter_after_spin_witness:
  "\<exists>rs gs' c'.
     spin spread_source id 1 \<lparr>balance = 100, index = 0, fails = 4\<rparr> 0 = Some (Inr (rs, gs', c')) \<and>
     fails gs' = (if length rs = 1 then 1 else 0) \<and>
     (\<exists>(t, n)\<in>set showcaseCombinations. \<exists>W. W \<noteq> {} \<and> W \<subseteq> {0..<30} \<and> card W \<le> n \<and>
        r_show (hd rs) =
          weighted_fill spread_source (0 + 1 + n)
            (map (\<lambda>i. if i \<in> W then Some t else None) [0..<30]))"
proof -
  let ?g = "\<lparr>balance = 100, index = 0, fails = 4\<rparr>" and ?g' = "\<lparr>balance = 299, index = 2, fails = 0\<rparr>"
  from spin_report_elim[OF showcase_spin] obtain rs where
    s: "spin spread_source id 1 ?g 0 = Some (Inr (rs, ?g', 65))" by blast
  have v: "0 < (1::int) \<and> 1 \<le> balance ?g \<and> 3 < fails ?g \<and> draws_ok spread_source"
    using draws_ok_spread by simp
  from pity_counter_after_spin[of spread_source id 1 ?g 0 rs ?g' 65, THEN conjunct1, rule_format, OF s]
  have a: "fails ?g' =
        (if length rs = 1
         then (if 0 < (1::int) \<and> 1 \<le> balance ?g \<and> 3 < fails ?g then 0 else fails ?g) + 1
         else 0)"
    and b: "0 < (1::int) \<and> 1 \<le> balance ?g \<and> 3 < fails ?g \<and> draws_ok spread_source \<longrightarrow>
         (\<exists>(t, n)\<in>set showcaseCombinations. \<exists>W. W \<noteq> {} \<and> W \<subseteq> {0..<30} \<and> card W \<le> n \<and>
            r_show (hd rs) =
              weighted_fill spread_source (0 + 1 + n)
                (map (\<lambda>i. if i \<in> W then Some t else None) [0..<30]))"
    by blast+
  from b v have sc: "\<exists>(t, n)\<in>set showcaseCombinations. \<exists>W. W \<noteq> {} \<and> W \<subseteq> {0..<30} \<and> card W \<le> n \<and>
            r_show (hd rs) =
              weighted_fill spread_source (0 + 1 + n)
                (map (\<lambda>i. if i \<in> W then Some t else None) [0..<30])"
    by (rule mp)
  from a have "fails ?g' = (if length rs = 1 then 1 else 0)" by (simp split: if_splits)
  with s sc show ?thesis by blast
qed

end
